theory Spec2Isabelle
  imports Main "HOL-Library.Word"
begin

section \<open>Data model of \<open>sentry.models.file\<close>\<close>

text \<open>
  Bytes are 8-bit words and a byte string is a list of them. A file-like object
  (a \<open>ContentFile\<close>, the object the storage backend opens, a temporary file) is
  its content and a read position.
\<close>

type_synonym byte = "8 word"
type_synonym bytes = "byte list"

datatype error =
    ValueError string
  | IOError string
  | TypeError
  | AssertionError
  | AttributeError
  | IntegrityError
  | MultipleObjectsReturned
  | AssembleChecksumMismatch string

record stream =
  s_data :: bytes
  s_pos :: nat

definition ContentFile :: "bytes \<Rightarrow> stream" where
  "ContentFile contents = \<lparr>s_data = contents, s_pos = 0\<rparr>"

text \<open>
  \<open>f.read(n)\<close>: at most \<open>n\<close> bytes from the position, all the remaining ones when
  \<open>n\<close> is negative; the position advances by what was read.
\<close>

definition stream_read :: "int \<Rightarrow> stream \<Rightarrow> bytes \<times> stream" where
  "stream_read n f =
     (let rest = drop (s_pos f) (s_data f);
          chunk = (if n < 0 then rest else take (nat n) rest)
      in (chunk, f\<lparr>s_pos := s_pos f + length chunk\<rparr>))"

text \<open>
  \<open>f.seek(p)\<close> from the start of the file: a negative position is refused, a
  position after the end is accepted (and a read there gives no bytes).
\<close>

definition stream_seek :: "int \<Rightarrow> stream \<Rightarrow> error + stream" where
  "stream_seek p f =
     (if p < 0 then Inl (IOError ''Invalid argument'') else Inr (f\<lparr>s_pos := nat p\<rparr>))"

definition remaining :: "stream \<Rightarrow> bytes" where
  "remaining f = drop (s_pos f) (s_data f)"

text \<open>
  The rows of \<open>sentry_fileblob\<close> and \<open>sentry_fileblobindex\<close>. \<open>path\<close> and \<open>size\<close> are
  nullable columns. An index entry carries its blob, as the query of
  \<open>File._get_chunked_blob\<close> loads it (\<open>select_related('blob')\<close>).
\<close>

record FileBlob =
  blob_id :: nat
  blob_path :: "string option"
  blob_size :: "nat option"
  blob_checksum :: string
  blob_timestamp :: nat

record FileBlobIndex =
  idx_id :: nat
  idx_file :: nat
  idx_blob :: FileBlob
  idx_offset :: nat

type_synonym storage = "string \<rightharpoonup> bytes"

text \<open>
  \<open>FileBlob.getfile\<close>: \<open>assert self.path\<close> (a missing or empty path fails), then
  \<open>storage.open(self.path)\<close>.
\<close>

definition getfile :: "storage \<Rightarrow> FileBlob \<Rightarrow> error + stream" where
  "getfile st b =
     (case blob_path b of
        None \<Rightarrow> Inl AssertionError
      | Some p \<Rightarrow>
          if p = [] then Inl AssertionError
          else (case st p of
                  None \<Rightarrow> Inl (IOError ''No such file or directory'')
                | Some bs \<Rightarrow> Inr \<lparr>s_data = bs, s_pos = 0\<rparr>))"

section \<open>ChunkedFileBlobIndexWrapper\<close>

record reader =
  indexes :: "FileBlobIndex list"
  curfile :: "stream option"
  curidx :: "FileBlobIndex option"
  idxiter :: "FileBlobIndex list"
  closed :: bool
  prefetched :: bool

text \<open>
  \<open>_nextidx\<close>: take the next entry of the iterator and open its blob; at the end
  of the iterator both \<open>_curidx\<close> and \<open>_curfile\<close> become \<open>None\<close>.
\<close>

definition nextidx :: "storage \<Rightarrow> reader \<Rightarrow> error + reader" where
  "nextidx st r =
     (if prefetched r then Inl AssertionError
      else (case idxiter r of
              [] \<Rightarrow> Inr (r\<lparr>curidx := None, curfile := None\<rparr>)
            | i # rest \<Rightarrow>
                (case getfile st (idx_blob i) of
                   Inl e \<Rightarrow> Inl e
                 | Inr f \<Rightarrow> Inr (r\<lparr>idxiter := rest, curidx := Some i, curfile := Some f\<rparr>))))"

text \<open>The \<open>size\<close> property: \<open>sum(i.blob.size for i in self._indexes)\<close>.\<close>

fun sum_sizes :: "FileBlobIndex list \<Rightarrow> error + nat" where
  "sum_sizes [] = Inr 0"
| "sum_sizes (i # rest) =
     (case blob_size (idx_blob i) of
        None \<Rightarrow> Inl TypeError
      | Some s \<Rightarrow> (case sum_sizes rest of Inl e \<Rightarrow> Inl e | Inr t \<Rightarrow> Inr (s + t)))"

definition reader_size :: "reader \<Rightarrow> error + nat" where
  "reader_size r = sum_sizes (indexes r)"

text \<open>
  The loop of \<open>seek\<close> over \<open>enumerate(self._indexes[::-1])\<close>: the first entry, from
  the end, whose offset is at most \<open>pos\<close>, with its rank \<open>n\<close>.
\<close>

fun seek_scan :: "nat \<Rightarrow> int \<Rightarrow> FileBlobIndex list \<Rightarrow> (nat \<times> FileBlobIndex) option" where
  "seek_scan n pos [] = None"
| "seek_scan n pos (idx # rest) =
     (if int (idx_offset idx) \<le> pos then Some (n, idx) else seek_scan (Suc n) pos rest)"

text \<open>\<open>idx != self._curidx\<close>: model instances compare by primary key.\<close>

definition idx_ne :: "FileBlobIndex \<Rightarrow> FileBlobIndex option \<Rightarrow> bool" where
  "idx_ne idx cur = (case cur of None \<Rightarrow> True | Some c \<Rightarrow> idx_id idx \<noteq> idx_id c)"

definition seek :: "storage \<Rightarrow> int \<Rightarrow> reader \<Rightarrow> error + reader" where
  "seek st pos r =
     (if closed r then Inl (ValueError ''I/O operation on closed file'')
      else if prefetched r then
        (case curfile r of
           None \<Rightarrow> Inl AttributeError
         | Some f \<Rightarrow>
             (case stream_seek pos f of
                Inl e \<Rightarrow> Inl e
              | Inr f' \<Rightarrow> Inr (r\<lparr>curfile := Some f'\<rparr>)))
      else if pos < 0 then Inl (IOError ''Invalid argument'')
      else
        (case seek_scan 0 pos (rev (indexes r)) of
           None \<Rightarrow> Inl (ValueError ''Cannot seek to pos'')
         | Some (n, idx) \<Rightarrow>
             (case (if idx_ne idx (curidx r)
                    then nextidx st
                           (r\<lparr>idxiter := drop (length (indexes r) - (n + 1)) (indexes r)\<rparr>)
                    else Inr r) of
                Inl e \<Rightarrow> Inl e
              | Inr r' \<Rightarrow>
                  (case (curfile r', curidx r') of
                     (Some f, Some c) \<Rightarrow>
                       (case stream_seek (pos - int (idx_offset c)) f of
                          Inl e \<Rightarrow> Inl e
                        | Inr f' \<Rightarrow> Inr (r'\<lparr>curfile := Some f'\<rparr>))
                   | _ \<Rightarrow> Inl AttributeError))))"

definition tell :: "reader \<Rightarrow> error + nat" where
  "tell r =
     (if closed r then Inl (ValueError ''I/O operation on closed file'')
      else if prefetched r then
        (case curfile r of None \<Rightarrow> Inl AttributeError | Some f \<Rightarrow> Inr (s_pos f))
      else
        (case curfile r of
           None \<Rightarrow> reader_size r
         | Some f \<Rightarrow>
             (case curidx r of
                None \<Rightarrow> Inl AttributeError
              | Some c \<Rightarrow> Inr (idx_offset c + s_pos f))))"

definition close :: "reader \<Rightarrow> reader" where
  "close r = r\<lparr>curfile := None, curidx := None, closed := True\<rparr>"

definition reader_open :: "storage \<Rightarrow> reader \<Rightarrow> error + reader" where
  "reader_open st r = seek st 0 (r\<lparr>closed := False\<rparr>)"

text \<open>
  \<open>read\<close> in streaming mode. Both loops read the current blob 32768 bytes at a
  time and move to the next index entry when the blob gives no more bytes.
\<close>

definition read_measure :: "reader \<Rightarrow> nat \<times> nat" where
  "read_measure r =
     (case curfile r of
        None \<Rightarrow> (0, 0)
      | Some f \<Rightarrow> (Suc (length (idxiter r)), length (s_data f) - s_pos f))"

function read_all :: "storage \<Rightarrow> reader \<Rightarrow> bytes \<Rightarrow> error + bytes \<times> reader" where
  "read_all st r result =
     (case curfile r of
        None \<Rightarrow> Inr (result, r)
      | Some f \<Rightarrow>
          if fst (stream_read 32768 f) = [] then
            (case nextidx st (r\<lparr>curfile := Some (snd (stream_read 32768 f))\<rparr>) of
               Inl e \<Rightarrow> Inl e
             | Inr r' \<Rightarrow> read_all st r' result)
          else
            read_all st (r\<lparr>curfile := Some (snd (stream_read 32768 f))\<rparr>)
              (result @ fst (stream_read 32768 f)))"
  by pat_completeness auto
termination
  apply (relation "inv_image (less_than <*lex*> less_than) (\<lambda>(st, r, result). read_measure r)")
    apply (intro wf_inv_image wf_lex_prod wf_less_than)
   apply (auto simp: nextidx_def read_measure_def split: if_splits list.splits sum.splits)[1]
  apply (auto simp: read_measure_def stream_read_def Let_def split: if_splits)
  done

function read_n :: "storage \<Rightarrow> int \<Rightarrow> reader \<Rightarrow> bytes \<Rightarrow> error + bytes \<times> reader" where
  "read_n st n r result =
     (case curfile r of
        None \<Rightarrow> Inr (result, r)
      | Some f \<Rightarrow>
          if n > 0 then
            (if fst (stream_read (min n 32768) f) = [] then
               (case nextidx st (r\<lparr>curfile := Some (snd (stream_read (min n 32768) f))\<rparr>) of
                  Inl e \<Rightarrow> Inl e
                | Inr r' \<Rightarrow> read_n st n r' result)
             else
               read_n st (n - int (length (fst (stream_read (min n 32768) f))))
                 (r\<lparr>curfile := Some (snd (stream_read (min n 32768) f))\<rparr>)
                 (result @ fst (stream_read (min n 32768) f)))
          else Inr (result, r))"
  by pat_completeness auto
termination
  apply (relation "inv_image (less_than <*lex*> less_than) (\<lambda>(st, n, r, result). read_measure r)")
    apply (intro wf_inv_image wf_lex_prod wf_less_than)
   apply (auto simp: nextidx_def read_measure_def split: if_splits list.splits sum.splits)[1]
  apply (auto simp: read_measure_def stream_read_def Let_def split: if_splits)
  done

declare read_all.simps [simp del] read_n.simps [simp del]

definition read :: "storage \<Rightarrow> int \<Rightarrow> reader \<Rightarrow> error + bytes \<times> reader" where
  "read st n r =
     (if closed r then Inl (ValueError ''I/O operation on closed file'')
      else if prefetched r then
        (case curfile r of
           None \<Rightarrow> Inl AttributeError
         | Some f \<Rightarrow> Inr (fst (stream_read n f), r\<lparr>curfile := Some (snd (stream_read n f))\<rparr>))
      else if n < 0 then read_all st r []
      else read_n st n r [])"

text \<open>
  \<open>_prefetch\<close>: a temporary file of \<open>size\<close> (here \<open>sz\<close>) zero bytes is mapped into memory and
  every blob is copied to its offset, 65535 bytes at a time. The copies run in a
  thread pool whose futures are never inspected: a blob that cannot be opened,
  or a chunk that does not fit into the mapping
  (\<open>mem[offset:offset + len(chunk)] = chunk\<close> raises for a slice of another
  size), ends that copy only. The copies are modelled in index order. The file
  position is where \<open>f.write\<close> left it; \<open>open\<close> rewinds.
\<close>

definition mem_write :: "bytes \<Rightarrow> nat \<Rightarrow> bytes \<Rightarrow> bytes" where
  "mem_write mem offset chunk = take offset mem @ chunk @ drop (offset + length chunk) mem"

function fetch_file :: "nat \<Rightarrow> stream \<Rightarrow> bytes \<Rightarrow> bytes" where
  "fetch_file offset sf mem =
     (if fst (stream_read 65535 sf) = [] then mem
      else if offset + length (fst (stream_read 65535 sf)) \<le> length mem then
        fetch_file (offset + length (fst (stream_read 65535 sf))) (snd (stream_read 65535 sf))
          (mem_write mem offset (fst (stream_read 65535 sf)))
      else mem)"
  by pat_completeness auto
termination
  apply (relation "measure (\<lambda>(offset, sf, mem). length (s_data sf) - s_pos sf)")
   apply simp
  apply (auto simp: stream_read_def Let_def split: if_splits)
  done

declare fetch_file.simps [simp del]

definition submit_fetch :: "storage \<Rightarrow> FileBlobIndex \<Rightarrow> bytes \<Rightarrow> bytes" where
  "submit_fetch st idx mem =
     (case getfile st (idx_blob idx) of
        Inl e \<Rightarrow> mem
      | Inr sf \<Rightarrow> fetch_file (idx_offset idx) sf mem)"

definition prefetch :: "storage \<Rightarrow> reader \<Rightarrow> error + reader" where
  "prefetch st r =
     (case reader_size r of
        Inl e \<Rightarrow> Inl e
      | Inr sz \<Rightarrow>
          if sz = 0 then Inr (r\<lparr>curfile := Some \<lparr>s_data = [], s_pos = 0\<rparr>\<rparr>)
          else Inr (r\<lparr>curfile :=
                 Some \<lparr>s_data = fold (submit_fetch st) (indexes r) (replicate sz 0),
                       s_pos = sz\<rparr>\<rparr>))"

text \<open>The constructor: \<open>__init__(indexes, prefetch=...)\<close>.\<close>

definition ChunkedFileBlobIndexWrapper ::
  "storage \<Rightarrow> FileBlobIndex list \<Rightarrow> bool \<Rightarrow> error + reader" where
  "ChunkedFileBlobIndexWrapper st idxs prefetch_flag =
     (let r = \<lparr>indexes = idxs, curfile = None, curidx = None, idxiter = [],
                closed = False, prefetched = prefetch_flag\<rparr>
      in if prefetch_flag then
           (case prefetch st r of Inl e \<Rightarrow> Inl e | Inr r' \<Rightarrow> reader_open st r')
         else reader_open st r)"

section \<open>Closed readers and \<open>tell\<close>\<close>

lemma sum_sizes_total:
  "list_all (\<lambda>i. blob_size (idx_blob i) \<noteq> None) idxs \<Longrightarrow>
   sum_sizes idxs = Inr (sum_list (map (\<lambda>i. the (blob_size (idx_blob i))) idxs))"
  by (induction idxs) auto

text \<open>
  Claim C5. After \<open>close()\<close>, \<open>read\<close>, \<open>seek\<close> and \<open>tell\<close> all raise
  \<open>ValueError('I/O operation on closed file')\<close> (a failed call leaves the reader as
  it is, so this holds for every later call). On an open reader in streaming mode,
  \<open>tell\<close> is the offset of the current entry plus the position in its stream, and
  the total size (the sum of the blob sizes) when no stream is open any more.
\<close>

theorem closed_reader_rejects_io_and_tell_reports_offset:
  "read st n (close r) = Inl (ValueError ''I/O operation on closed file'') \<and>
   seek st pos (close r) = Inl (ValueError ''I/O operation on closed file'') \<and>
   tell (close r) = Inl (ValueError ''I/O operation on closed file'') \<and>
   (\<not> closed r \<and> \<not> prefetched r \<and> curfile r = Some f \<and> curidx r = Some c \<longrightarrow>
      tell r = Inr (idx_offset c + s_pos f)) \<and>
   (\<not> closed r \<and> \<not> prefetched r \<and> curfile r = None \<and>
    list_all (\<lambda>i. blob_size (idx_blob i) \<noteq> None) (indexes r) \<longrightarrow>
      tell r = Inr (sum_list (map (\<lambda>i. the (blob_size (idx_blob i))) (indexes r))))"
  by (simp add: read_def seek_def tell_def close_def reader_size_def sum_sizes_total)

text \<open>Example data: blob rows, index entries and a reader over two blobs.\<close>

definition ex_blob :: "nat \<Rightarrow> string \<Rightarrow> nat \<Rightarrow> FileBlob" where
  "ex_blob i p n = \<lparr>blob_id = i, blob_path = Some p, blob_size = Some n,
     blob_checksum = p, blob_timestamp = 0\<rparr>"

definition ex_index :: "nat \<Rightarrow> FileBlob \<Rightarrow> nat \<Rightarrow> FileBlobIndex" where
  "ex_index i b off = \<lparr>idx_id = i, idx_file = 1, idx_blob = b, idx_offset = off\<rparr>"

definition ex_indexes :: "FileBlobIndex list" where
  "ex_indexes = [ex_index 1 (ex_blob 1 ''a'' 3) 0, ex_index 2 (ex_blob 2 ''b'' 2) 3]"

definition ex_storage :: storage where
  "ex_storage = [''a'' \<mapsto> [1, 2, 3], ''b'' \<mapsto> [7, 8]]"

definition ex_reader :: "stream option \<Rightarrow> FileBlobIndex option \<Rightarrow> reader" where
  "ex_reader f c =
     \<lparr>indexes = ex_indexes, curfile = f, curidx = c, idxiter = [],
      closed = False, prefetched = False\<rparr>"

theorem closed_reader_rejects_io_and_tell_reports_offset_witness:
  "read ex_storage 1 (close (ex_reader None None))
     = Inl (ValueError ''I/O operation on closed file'') \<and>
   seek ex_storage 0 (close (ex_reader None None))
     = Inl (ValueError ''I/O operation on closed file'') \<and>
   tell (close (ex_reader None None)) = Inl (ValueError ''I/O operation on closed file'') \<and>
   tell (ex_reader (Some \<lparr>s_data = [7, 8], s_pos = 1\<rparr>)
           (Some (ex_index 2 (ex_blob 2 ''b'' 2) 3))) = Inr 4 \<and>
   tell (ex_reader None None) = Inr 5"
  using closed_reader_rejects_io_and_tell_reports_offset
          [of ex_storage 1 "ex_reader None None" 0 undefined undefined]
        closed_reader_rejects_io_and_tell_reports_offset
          [of ex_storage 1
              "ex_reader (Some \<lparr>s_data = [7, 8], s_pos = 1\<rparr>)
                 (Some (ex_index 2 (ex_blob 2 ''b'' 2) 3))" 0
              "\<lparr>s_data = [7, 8], s_pos = 1\<rparr>" "ex_index 2 (ex_blob 2 ''b'' 2) 3"]
  by (simp add: ex_reader_def ex_indexes_def ex_index_def ex_blob_def)

section \<open>A file without blobs\<close>

text \<open>
  Claim C10. Over an empty list of index entries the constructor fails in
  streaming mode: \<open>open\<close> seeks to 0 and no entry has an offset at most 0, so
  \<open>seek\<close> raises \<open>ValueError('Cannot seek to pos')\<close>. In prefetch mode the same
  list gives a reader, and reading it gives no bytes.
\<close>

theorem empty_index_streaming_fails_prefetch_reads_empty:
  "ChunkedFileBlobIndexWrapper st [] False = Inl (ValueError ''Cannot seek to pos'') \<and>
   (\<exists>r. ChunkedFileBlobIndexWrapper st [] True = Inr r \<and>
        (\<exists>r'. read st n r = Inr ([], r')))"
  by (simp add: ChunkedFileBlobIndexWrapper_def reader_open_def seek_def prefetch_def
      reader_size_def stream_seek_def read_def stream_read_def)

section \<open>Reading in streaming mode\<close>

text \<open>
  What a reader is expected to deliver. \<open>blob_bytes\<close> is the content the storage
  holds for a blob and \<open>whole\<close> the concatenation over a list of index entries.
  \<open>well_indexed\<close> is the File invariant the reader relies on and never checks:
  every blob can be opened and has the recorded size, the offsets are the
  cumulative sizes, and the entries have distinct primary keys. \<open>pending\<close> is
  what is left to read from the cursor. \<open>streaming_inv\<close> describes an open
  reader in streaming mode: the current entry followed by the iterator is a
  suffix of the index list, and the open stream is that entry's blob.
\<close>

definition blob_bytes :: "storage \<Rightarrow> FileBlob \<Rightarrow> bytes" where
  "blob_bytes st b = (case getfile st b of Inl e \<Rightarrow> [] | Inr f \<Rightarrow> s_data f)"

definition whole :: "storage \<Rightarrow> FileBlobIndex list \<Rightarrow> bytes" where
  "whole st idxs = concat (map (\<lambda>i. blob_bytes st (idx_blob i)) idxs)"

definition blob_stored :: "storage \<Rightarrow> FileBlob \<Rightarrow> bool" where
  "blob_stored st b =
     (case getfile st b of Inl e \<Rightarrow> False | Inr f \<Rightarrow> blob_size b = Some (length (s_data f)))"

fun cumulative :: "nat \<Rightarrow> FileBlobIndex list \<Rightarrow> bool" where
  "cumulative off [] = True"
| "cumulative off (i # rest) =
     (idx_offset i = off \<and>
      (case blob_size (idx_blob i) of None \<Rightarrow> False | Some s \<Rightarrow> cumulative (off + s) rest))"

definition well_indexed :: "storage \<Rightarrow> FileBlobIndex list \<Rightarrow> bool" where
  "well_indexed st idxs =
     (cumulative 0 idxs \<and> list_all (\<lambda>i. blob_stored st (idx_blob i)) idxs \<and>
      distinct (map idx_id idxs))"

definition pending :: "storage \<Rightarrow> reader \<Rightarrow> bytes" where
  "pending st r =
     (case curfile r of None \<Rightarrow> [] | Some f \<Rightarrow> remaining f @ whole st (idxiter r))"

definition streaming_inv :: "storage \<Rightarrow> reader \<Rightarrow> bool" where
  "streaming_inv st r =
     (\<not> closed r \<and> \<not> prefetched r \<and> well_indexed st (indexes r) \<and>
      (case curfile r of
         None \<Rightarrow> curidx r = None
       | Some f \<Rightarrow>
           (case curidx r of
              None \<Rightarrow> False
            | Some c \<Rightarrow>
                s_data f = blob_bytes st (idx_blob c) \<and>
                (s_pos f \<le> length (s_data f) \<or> idxiter r = []) \<and>
                length (idxiter r) < length (indexes r) \<and>
                drop (length (indexes r) - Suc (length (idxiter r))) (indexes r)
                  = c # idxiter r)))"

subsection \<open>The read loops\<close>

definition in_range :: "reader \<Rightarrow> bool" where
  "in_range r = (case curfile r of None \<Rightarrow> True | Some f \<Rightarrow> s_pos f \<le> length (s_data f))"

lemma stream_read_fst: "fst (stream_read n f) = (if n < 0 then remaining f else take (nat n) (remaining f))"
  by (simp add: stream_read_def remaining_def Let_def)

lemma stream_read_snd: "snd (stream_read n f) = f\<lparr>s_pos := s_pos f + length (fst (stream_read n f))\<rparr>"
  by (simp add: stream_read_def Let_def)

lemma stream_read_remaining:
  "remaining (snd (stream_read n f)) = drop (length (fst (stream_read n f))) (remaining f)"
  by (simp add: stream_read_def remaining_def Let_def add.commute)

lemma stream_read_prefix:
  "fst (stream_read n f) = take (length (fst (stream_read n f))) (remaining f)"
  by (auto simp: stream_read_fst min_def)

lemma stream_read_empty:
  "0 < n \<Longrightarrow> fst (stream_read n f) = [] \<Longrightarrow> remaining f = []"
  by (auto simp: stream_read_fst split: if_splits)

lemma stream_read_nonempty_pos:
  "fst (stream_read n f) \<noteq> [] \<Longrightarrow> s_pos f + length (fst (stream_read n f)) \<le> length (s_data f)"
  by (auto simp: stream_read_fst remaining_def split: if_splits)

lemma getfile_stored:
  "blob_stored st b \<Longrightarrow> getfile st b = Inr \<lparr>s_data = blob_bytes st b, s_pos = 0\<rparr>"
  by (auto simp: blob_stored_def blob_bytes_def getfile_def split: option.splits if_splits sum.splits)

lemma drop_Cons_Suc: "drop m xs = a # ys \<Longrightarrow> drop (Suc m) xs = ys"
  by (metis drop_Suc tl_drop list.sel(3))

lemma inv_iter_stored:
  assumes "streaming_inv st r" "curfile r = Some f"
  shows "list_all (\<lambda>i. blob_stored st (idx_blob i)) (idxiter r)"
proof -
  obtain c where c: "drop (length (indexes r) - Suc (length (idxiter r))) (indexes r) = c # idxiter r"
    using assms by (auto simp: streaming_inv_def split: option.splits)
  have "set (idxiter r) \<subseteq> set (indexes r)"
    using set_drop_subset[of "length (indexes r) - Suc (length (idxiter r))" "indexes r"] c
    by auto
  moreover have "list_all (\<lambda>i. blob_stored st (idx_blob i)) (indexes r)"
    using assms by (simp add: streaming_inv_def well_indexed_def)
  ultimately show ?thesis by (auto simp: list_all_iff)
qed

lemma inv_step_chunk:
  assumes "streaming_inv st r" "curfile r = Some f" "fst (stream_read m f) \<noteq> []"
  shows "streaming_inv st (r\<lparr>curfile := Some (snd (stream_read m f))\<rparr>)"
    and "pending st (r\<lparr>curfile := Some (snd (stream_read m f))\<rparr>)
          = drop (length (fst (stream_read m f))) (pending st r)"
    and "fst (stream_read m f) = take (length (fst (stream_read m f))) (pending st r)"
    and "in_range (r\<lparr>curfile := Some (snd (stream_read m f))\<rparr>)"
proof -
  let ?c = "fst (stream_read m f)"
  have le: "s_pos f + length ?c \<le> length (s_data f)"
    using assms(3) by (rule stream_read_nonempty_pos)
  show "streaming_inv st (r\<lparr>curfile := Some (snd (stream_read m f))\<rparr>)"
    using assms(1,2) le by (auto simp: streaming_inv_def stream_read_snd split: option.splits)
  have len: "length ?c \<le> length (remaining f)"
    using le by (simp add: remaining_def)
  show "pending st (r\<lparr>curfile := Some (snd (stream_read m f))\<rparr>) = drop (length ?c) (pending st r)"
    using assms(2) len by (simp add: pending_def stream_read_remaining)
  show "?c = take (length ?c) (pending st r)"
    using assms(2) len stream_read_prefix[of m f] by (simp add: pending_def)
  show "in_range (r\<lparr>curfile := Some (snd (stream_read m f))\<rparr>)"
    using le by (simp add: in_range_def stream_read_snd)
qed

lemma inv_step_next:
  assumes "streaming_inv st r" "curfile r = Some f" "0 < m" "fst (stream_read m f) = []"
  shows "\<exists>r2. nextidx st (r\<lparr>curfile := Some (snd (stream_read m f))\<rparr>) = Inr r2 \<and>
           streaming_inv st r2 \<and> pending st r2 = pending st r \<and> indexes r2 = indexes r \<and>
           in_range r2"
proof -
  have rem: "remaining f = []" using assms(3,4) by (rule stream_read_empty)
  have np: "\<not> prefetched r" using assms(1) by (simp add: streaming_inv_def)
  show ?thesis
  proof (cases "idxiter r")
    case Nil
    then show ?thesis using assms(1,2) rem np
      by (simp add: nextidx_def pending_def whole_def streaming_inv_def in_range_def)
  next
    case (Cons i rest)
    have "list_all (\<lambda>i. blob_stored st (idx_blob i)) (idxiter r)"
      using assms(1,2) by (rule inv_iter_stored)
    then have sti: "blob_stored st (idx_blob i)" using Cons by simp
    obtain c where c: "drop (length (indexes r) - Suc (length (idxiter r))) (indexes r) = c # idxiter r"
      and lt: "length (idxiter r) < length (indexes r)"
      using assms(1,2) by (auto simp: streaming_inv_def split: option.splits)
    have "drop (Suc (length (indexes r) - Suc (length (idxiter r)))) (indexes r) = idxiter r"
      using c by (rule drop_Cons_Suc)
    moreover have "Suc (length (indexes r) - Suc (length (idxiter r))) = length (indexes r) - Suc (length rest)"
      using lt Cons by simp
    ultimately have dr: "drop (length (indexes r) - Suc (length rest)) (indexes r) = i # rest"
      using Cons by simp
    show ?thesis using assms(1,2) rem np Cons dr lt
      by (simp add: nextidx_def getfile_stored[OF sti] pending_def whole_def streaming_inv_def
                    remaining_def in_range_def)
  qed
qed

lemma read_all_None: "curfile r = None \<Longrightarrow> read_all st r acc = Inr (acc, r)"
  by (subst read_all.simps) simp

lemma read_all_inv:
  "streaming_inv st r \<Longrightarrow>
   \<exists>r'. read_all st r acc = Inr (acc @ pending st r, r') \<and> streaming_inv st r' \<and>
        curfile r' = None \<and> indexes r' = indexes r \<and> in_range r'"
proof (induction st r acc rule: read_all.induct)
  case (1 st r acc)
  show ?case
  proof (cases "curfile r")
    case None
    then show ?thesis using "1.prems" by (simp add: read_all_None pending_def in_range_def)
  next
    case (Some f)
    let ?c = "fst (stream_read 32768 f)" and ?f' = "snd (stream_read 32768 f)"
    show ?thesis
    proof (cases "?c = []")
      case True
      obtain r2 where nx: "nextidx st (r\<lparr>curfile := Some ?f'\<rparr>) = Inr r2"
        and r2: "streaming_inv st r2" "pending st r2 = pending st r" "indexes r2 = indexes r"
          "in_range r2"
        using inv_step_next[OF "1.prems" Some _ True] by auto
      have "read_all st r acc = read_all st r2 acc"
        using Some True nx by (subst read_all.simps) simp
      then show ?thesis using "1.IH"(1)[OF Some True nx r2(1)] r2 by simp
    next
      case False
      let ?r' = "r\<lparr>curfile := Some ?f'\<rparr>"
      note st = inv_step_chunk[OF "1.prems" Some False]
      have eq: "read_all st r acc = read_all st ?r' (acc @ ?c)"
        using Some False by (subst read_all.simps) simp
      have "?c @ pending st ?r' = pending st r"
        using st(2,3) by (metis append_take_drop_id)
      then show ?thesis using "1.IH"(2)[OF Some False st(1)] eq st(4) by auto
    qed
  qed
qed

lemma read_n_inv:
  "streaming_inv st r \<Longrightarrow> 0 \<le> n \<Longrightarrow>
   \<exists>r'. read_n st n r acc = Inr (acc @ take (nat n) (pending st r), r') \<and>
        streaming_inv st r' \<and> pending st r' = drop (nat n) (pending st r) \<and>
        indexes r' = indexes r \<and> (in_range r \<longrightarrow> in_range r')"
proof (induction st n r acc rule: read_n.induct)
  case (1 st n r acc)
  show ?case
  proof (cases "curfile r")
    case None
    then show ?thesis using "1.prems" by (subst read_n.simps) (simp add: pending_def)
  next
    case (Some f)
    show ?thesis
    proof (cases "n > 0")
      case False
      then show ?thesis using "1.prems" Some by (subst read_n.simps) simp
    next
      case True
      let ?m = "min n 32768"
      let ?c = "fst (stream_read ?m f)" and ?f' = "snd (stream_read ?m f)"
      have m: "0 < ?m" using True by simp
      show ?thesis
      proof (cases "?c = []")
        case empty: True
        obtain r2 where nx: "nextidx st (r\<lparr>curfile := Some ?f'\<rparr>) = Inr r2"
          and r2: "streaming_inv st r2" "pending st r2 = pending st r" "indexes r2 = indexes r"
            "in_range r2"
          using inv_step_next[OF "1.prems"(1) Some m empty] by auto
        have "read_n st n r acc = read_n st n r2 acc"
          using Some True empty nx by (subst read_n.simps) simp
        then show ?thesis using "1.IH"(1)[OF Some True empty nx r2(1) "1.prems"(2)] r2 by auto
      next
        case False
        let ?r' = "r\<lparr>curfile := Some ?f'\<rparr>"
        let ?n' = "n - int (length ?c)"
        note st = inv_step_chunk[OF "1.prems"(1) Some False]
        have len: "int (length ?c) \<le> n"
          using True by (auto simp: stream_read_fst min_def)
        then have n': "0 \<le> ?n'" by simp
        have eq: "read_n st n r acc = read_n st ?n' ?r' (acc @ ?c)"
          using Some True False by (subst read_n.simps) simp
        have nat_n: "nat n = length ?c + nat ?n'" using len by simp
        have tk: "?c @ take (nat ?n') (pending st ?r') = take (nat n) (pending st r)"
          unfolding nat_n take_add st(2) using st(3) by simp
        have dr: "drop (nat ?n') (pending st ?r') = drop (nat n) (pending st r)"
          unfolding nat_n st(2) by (simp add: add.commute)
        show ?thesis using "1.IH"(2)[OF Some True False st(1) n'] eq tk dr st(4) by auto
      qed
    qed
  qed
qed

subsection \<open>The logical position\<close>

lemma whole_append: "whole st (xs @ ys) = whole st xs @ whole st ys"
  by (simp add: whole_def)

lemma whole_Nil [simp]: "whole st [] = []"
  by (simp add: whole_def)

lemma whole_Cons: "whole st (i # rest) = blob_bytes st (idx_blob i) @ whole st rest"
  by (simp add: whole_def)

lemma blob_stored_size: "blob_stored st b \<Longrightarrow> blob_size b = Some (length (blob_bytes st b))"
  by (auto simp: blob_stored_def blob_bytes_def split: sum.splits)

lemma sum_sizes_whole:
  "list_all (\<lambda>i. blob_stored st (idx_blob i)) idxs \<Longrightarrow>
   sum_sizes idxs = Inr (length (whole st idxs))"
  by (induction idxs) (auto simp: whole_Cons blob_stored_size)

lemma cumulative_offset:
  "cumulative off (xs @ c # ys) \<Longrightarrow> list_all (\<lambda>i. blob_stored st (idx_blob i)) xs \<Longrightarrow>
   idx_offset c = off + length (whole st xs)"
proof (induction xs arbitrary: off)
  case Nil
  then show ?case by (simp add: whole_def)
next
  case (Cons x xs)
  then show ?case by (auto simp: whole_Cons blob_stored_size split: option.splits)
qed

lemma cumulative_next:
  "cumulative off (xs @ c # d # ys) \<Longrightarrow> list_all (\<lambda>i. blob_stored st (idx_blob i)) (xs @ [c]) \<Longrightarrow>
   idx_offset d = idx_offset c + length (blob_bytes st (idx_blob c))"
  using cumulative_offset[of off "xs @ [c]" d ys st] cumulative_offset[of off xs c "d # ys" st]
  by (simp add: whole_append whole_Cons whole_def)

lemma inv_split:
  assumes "streaming_inv st r" "curfile r = Some f"
  shows "\<exists>c pre. curidx r = Some c \<and> indexes r = pre @ c # idxiter r \<and>
           s_data f = blob_bytes st (idx_blob c) \<and>
           idx_offset c = length (whole st pre) \<and>
           (s_pos f \<le> length (s_data f) \<or> idxiter r = [])"
proof -
  obtain c where c: "curidx r = Some c" "s_data f = blob_bytes st (idx_blob c)"
      "s_pos f \<le> length (s_data f) \<or> idxiter r = []"
      "drop (length (indexes r) - Suc (length (idxiter r))) (indexes r) = c # idxiter r"
    using assms by (auto simp: streaming_inv_def split: option.splits)
  define pre where "pre = take (length (indexes r) - Suc (length (idxiter r))) (indexes r)"
  have sp: "indexes r = pre @ c # idxiter r"
    unfolding pre_def using c(4) by (metis append_take_drop_id)
  have wi: "cumulative 0 (indexes r)" "list_all (\<lambda>i. blob_stored st (idx_blob i)) (indexes r)"
    using assms(1) by (simp_all add: streaming_inv_def well_indexed_def)
  have "idx_offset c = 0 + length (whole st pre)"
    using wi sp by (intro cumulative_offset[of 0 pre c "idxiter r"]) simp_all
  then show ?thesis using c sp by auto
qed

lemma inv_tell:
  assumes "streaming_inv st r"
  shows "\<exists>p. tell r = Inr p \<and> pending st r = drop p (whole st (indexes r))"
proof (cases "curfile r")
  case None
  have "list_all (\<lambda>i. blob_stored st (idx_blob i)) (indexes r)"
    using assms by (simp add: streaming_inv_def well_indexed_def)
  then have "reader_size r = Inr (length (whole st (indexes r)))"
    by (simp add: reader_size_def sum_sizes_whole)
  then show ?thesis using None assms
    by (simp add: tell_def streaming_inv_def pending_def)
next
  case (Some f)
  obtain c pre where c: "curidx r = Some c" "indexes r = pre @ c # idxiter r"
      "s_data f = blob_bytes st (idx_blob c)" "idx_offset c = length (whole st pre)"
      "s_pos f \<le> length (s_data f) \<or> idxiter r = []"
    using inv_split[OF assms Some] by blast
  have t: "tell r = Inr (idx_offset c + s_pos f)"
    using assms Some c(1) by (simp add: tell_def streaming_inv_def)
  have "drop (idx_offset c + s_pos f) (whole st (indexes r))
        = drop (s_pos f) (s_data f) @ whole st (idxiter r)"
    using c(2-5) by (auto simp: whole_append whole_Cons)
  then show ?thesis using t Some by (simp add: pending_def remaining_def)
qed

lemma inv_tell_in_range:
  assumes "streaming_inv st r" "in_range r"
  shows "tell r = Inr (length (whole st (indexes r)) - length (pending st r))"
proof (cases "curfile r")
  case None
  then show ?thesis using inv_tell[OF assms(1)] assms(1)
    by (auto simp: pending_def tell_def streaming_inv_def reader_size_def well_indexed_def
        sum_sizes_whole)
next
  case (Some f)
  obtain c pre where c: "curidx r = Some c" "indexes r = pre @ c # idxiter r"
      "s_data f = blob_bytes st (idx_blob c)" "idx_offset c = length (whole st pre)"
    using inv_split[OF assms(1) Some] by blast
  have le: "s_pos f \<le> length (s_data f)" using assms(2) Some by (simp add: in_range_def)
  have t: "tell r = Inr (idx_offset c + s_pos f)"
    using assms Some c(1) by (simp add: tell_def streaming_inv_def)
  have "length (whole st (indexes r)) - length (pending st r) = idx_offset c + s_pos f"
    using c(2-4) le Some by (simp add: whole_append whole_Cons pending_def remaining_def)
  then show ?thesis using t by simp
qed

subsection \<open>Seeking\<close>

lemma later_in_suffix:
  assumes "pre @ c # ys = pre' @ d # zs" "length zs < length ys"
  shows "d \<in> set ys"
proof -
  have "length (pre @ c # ys) = length (pre' @ d # zs)" using assms(1) by simp
  then have len: "length pre' = length pre + Suc (length ys - Suc (length zs))"
    using assms(2) by simp
  have "(pre @ c # ys) ! length pre' = d" using assms(1) by simp
  then have "ys ! (length ys - Suc (length zs)) = d"
    unfolding len by (simp add: nth_append)
  then show ?thesis using assms(2) by (metis diff_less nth_mem zero_less_Suc less_nat_zero_code not_gr_zero)
qed

lemma distinct_suffix_unique:
  assumes "distinct (map g xs)" "xs = pre @ c # ys" "xs = pre' @ d # zs" "g c = g d"
  shows "pre = pre' \<and> c = d \<and> ys = zs"
proof -
  have "length pre < length xs" by (subst assms(2)) simp
  moreover have "length pre' < length xs" by (subst assms(3)) simp
  moreover have "map g xs ! length pre = g c" by (subst assms(2)) (simp add: nth_append)
  moreover have "map g xs ! length pre' = g d" by (subst assms(3)) (simp add: nth_append)
  ultimately have "length pre = length pre'"
    using assms(1,4) by (metis length_map nth_eq_iff_index_eq)
  moreover have "pre @ c # ys = pre' @ d # zs" using assms(2,3) by simp
  ultimately show ?thesis by simp
qed


lemma seek_scan_None:
  "seek_scan n pos xs = None \<longleftrightarrow> list_all (\<lambda>i. pos < int (idx_offset i)) xs"
  by (induction xs arbitrary: n) auto

lemma seek_scan_rev_Some:
  "seek_scan n pos (rev idxs) = Some (m, idx) \<Longrightarrow>
   \<exists>pre post. idxs = pre @ idx # post \<and> m = n + length post \<and>
      int (idx_offset idx) \<le> pos \<and> list_all (\<lambda>i. pos < int (idx_offset i)) post"
proof (induction idxs arbitrary: n rule: rev_induct)
  case Nil
  then show ?case by simp
next
  case (snoc x xs)
  show ?case
  proof (cases "int (idx_offset x) \<le> pos")
    case True
    then have "m = n" "idx = x" using snoc.prems by simp_all
    then show ?thesis using True by (intro exI[of _ xs] exI[of _ "[]"]) simp
  next
    case False
    then have "seek_scan (Suc n) pos (rev xs) = Some (m, idx)" using snoc.prems by simp
    from snoc.IH[OF this] obtain pre post where
      "xs = pre @ idx # post" "m = Suc n + length post" "int (idx_offset idx) \<le> pos"
      "list_all (\<lambda>i. pos < int (idx_offset i)) post" by blast
    then show ?thesis using False
      by (intro exI[of _ pre] exI[of _ "post @ [x]"]) simp
  qed
qed

lemma seek_scan_found:
  assumes sp: "idxs = pre @ idx # post"
    and le: "int (idx_offset idx) \<le> pos"
    and post: "list_all (\<lambda>i. pos < int (idx_offset i)) post"
  shows "seek_scan 0 pos (rev idxs) = Some (length post, idx)"
proof -
  have "seek_scan 0 pos (rev idxs) \<noteq> None"
    using sp le by (auto simp: seek_scan_None)
  then obtain m idx' where sc: "seek_scan 0 pos (rev idxs) = Some (m, idx')" by auto
  from seek_scan_rev_Some[OF this] obtain pre' post' where
    f: "idxs = pre' @ idx' # post'" "m = length post'" "int (idx_offset idx') \<le> pos"
       "list_all (\<lambda>i. pos < int (idx_offset i)) post'" by auto
  have eq: "pre @ idx # post = pre' @ idx' # post'" using sp f(1) by simp
  have "\<not> length post' < length post"
    using later_in_suffix[OF eq] post f(3) by (fastforce simp: list_all_iff)
  moreover have "\<not> length post < length post'"
    using later_in_suffix[OF eq[symmetric]] f(4) le by (fastforce simp: list_all_iff)
  ultimately have "length post' = length post" by simp
  then have "idx' = idx \<and> post' = post" using eq by simp
  then show ?thesis using sc f(2) by simp
qed

definition seek_target ::
  "storage \<Rightarrow> int \<Rightarrow> reader \<Rightarrow> FileBlobIndex \<Rightarrow> FileBlobIndex list \<Rightarrow> reader" where
  "seek_target st pos r idx post =
     r\<lparr>idxiter := post, curidx := Some idx,
       curfile := Some \<lparr>s_data = blob_bytes st (idx_blob idx),
                        s_pos = nat (pos - int (idx_offset idx))\<rparr>\<rparr>"

lemma seek_found:
  assumes inv: "streaming_inv st r" and pos: "0 \<le> pos"
    and sp: "indexes r = pre @ idx # post"
    and le: "int (idx_offset idx) \<le> pos"
    and post: "list_all (\<lambda>i. pos < int (idx_offset i)) post"
  shows "seek st pos r = Inr (seek_target st pos r idx post)"
proof -
  have open_r: "\<not> closed r" "\<not> prefetched r" using inv by (simp_all add: streaming_inv_def)
  have wi: "list_all (\<lambda>i. blob_stored st (idx_blob i)) (indexes r)"
      "distinct (map idx_id (indexes r))"
    using inv by (simp_all add: streaming_inv_def well_indexed_def)
  have sc: "seek_scan 0 pos (rev (indexes r)) = Some (length post, idx)"
    using sp le post by (rule seek_scan_found)
  have dr: "drop (length (indexes r) - (length post + 1)) (indexes r) = idx # post"
    by (subst (1 2) sp) simp
  have sti: "blob_stored st (idx_blob idx)" using wi(1) sp by simp
  have sk: "stream_seek (pos - int (idx_offset idx)) f
              = Inr (f\<lparr>s_pos := nat (pos - int (idx_offset idx))\<rparr>)" for f
    using le by (simp add: stream_seek_def)
  show ?thesis
  proof (cases "idx_ne idx (curidx r)")
    case True
    then show ?thesis using open_r pos sc dr sk
      by (simp add: seek_def nextidx_def getfile_stored[OF sti] seek_target_def)
  next
    case False
    then obtain c where c: "curidx r = Some c" "idx_id idx = idx_id c"
      by (auto simp: idx_ne_def split: option.splits)
    then obtain f where f: "curfile r = Some f"
      using inv by (cases "curfile r") (auto simp: streaming_inv_def)
    obtain c' pre' where c': "curidx r = Some c'" "indexes r = pre' @ c' # idxiter r"
      "s_data f = blob_bytes st (idx_blob c')"
      using inv_split[OF inv f] by blast
    have "pre = pre' \<and> idx = c \<and> post = idxiter r"
      using distinct_suffix_unique[OF wi(2) sp _ c(2)] c' c(1) by simp
    then have same: "idx = c" "idxiter r = post" "s_data f = blob_bytes st (idx_blob idx)"
      using c' c(1) by simp_all
    have "f\<lparr>s_pos := nat (pos - int (idx_offset idx))\<rparr>
          = \<lparr>s_data = blob_bytes st (idx_blob idx), s_pos = nat (pos - int (idx_offset idx))\<rparr>"
      using same(3) by simp
    moreover have "r\<lparr>idxiter := post, curidx := Some idx, curfile := Some x\<rparr> = r\<lparr>curfile := Some x\<rparr>" for x
      using same(1,2) c(1) by simp
    ultimately show ?thesis using open_r pos sc False c f same(1) sk
      by (simp add: seek_def seek_target_def)
  qed
qed

lemma seek_split:
  assumes "cumulative 0 idxs" "idxs \<noteq> []" "0 \<le> pos"
  shows "\<exists>pre idx post. idxs = pre @ idx # post \<and> int (idx_offset idx) \<le> pos \<and>
           list_all (\<lambda>i. pos < int (idx_offset i)) post"
proof -
  obtain i rest where ir: "idxs = i # rest" using assms(2) by (cases idxs) auto
  then have "idx_offset i = 0" using assms(1) by simp
  then have "\<not> list_all (\<lambda>i. pos < int (idx_offset i)) (rev idxs)"
    using assms(3) ir by (auto simp: list_all_iff)
  then obtain m idx where "seek_scan 0 pos (rev idxs) = Some (m, idx)"
    using seek_scan_None[of 0 pos "rev idxs"] by (cases "seek_scan 0 pos (rev idxs)") auto
  from seek_scan_rev_Some[OF this] show ?thesis by blast
qed

lemma seek_target_inv:
  assumes inv: "streaming_inv st r"
    and sp: "indexes r = pre @ idx # post"
    and le: "int (idx_offset idx) \<le> pos"
    and post: "list_all (\<lambda>i. pos < int (idx_offset i)) post"
  shows "streaming_inv st (seek_target st pos r idx post)"
    and "tell (seek_target st pos r idx post) = Inr (nat pos)"
    and "pos \<le> int (length (whole st (indexes r))) \<Longrightarrow> in_range (seek_target st pos r idx post)"
proof -
  have open_r: "\<not> closed r" "\<not> prefetched r" using inv by (simp_all add: streaming_inv_def)
  have wi: "cumulative 0 (indexes r)" "list_all (\<lambda>i. blob_stored st (idx_blob i)) (indexes r)"
      "well_indexed st (indexes r)"
    using inv by (simp_all add: streaming_inv_def well_indexed_def)
  have off: "idx_offset idx = length (whole st pre)"
    using cumulative_offset[of 0 pre idx post st] wi(1,2) sp by simp
  have nxt: "nat (pos - int (idx_offset idx)) < length (blob_bytes st (idx_blob idx))"
    if ne: "post \<noteq> []"
  proof -
    obtain d rest where d: "post = d # rest" using ne by (cases post) auto
    have "idx_offset d = idx_offset idx + length (blob_bytes st (idx_blob idx))"
      using cumulative_next[of 0 pre idx d rest st] wi(1,2) sp d by simp
    moreover have "pos < int (idx_offset d)" using post d by simp
    ultimately show ?thesis using le by linarith
  qed
  have dr: "drop (length (indexes r) - Suc (length post)) (indexes r) = idx # post"
    by (subst (1 2) sp) simp
  have lt: "length post < length (indexes r)" by (subst sp) simp
  show "streaming_inv st (seek_target st pos r idx post)"
    using open_r wi(3) dr lt nxt
    by (cases "post = []") (auto simp: streaming_inv_def seek_target_def)
  show "tell (seek_target st pos r idx post) = Inr (nat pos)"
    using open_r le by (simp add: tell_def seek_target_def)
  show "in_range (seek_target st pos r idx post)" if "pos \<le> int (length (whole st (indexes r)))"
  proof (cases "post = []")
    case True
    then have "length (whole st (indexes r)) = idx_offset idx + length (blob_bytes st (idx_blob idx))"
      using sp off by (simp add: whole_append whole_Cons)
    then show ?thesis using that le by (simp add: in_range_def seek_target_def)
  next
    case False
    then show ?thesis using nxt by (simp add: in_range_def seek_target_def)
  qed
qed

lemma constructor_streaming:
  assumes "well_indexed st idxs" "idxs \<noteq> []"
  shows "\<exists>r0. ChunkedFileBlobIndexWrapper st idxs False = Inr r0 \<and> streaming_inv st r0 \<and>
           in_range r0 \<and> indexes r0 = idxs \<and> tell r0 = Inr 0"
proof -
  let ?r = "\<lparr>indexes = idxs, curfile = None, curidx = None, idxiter = [],
              closed = False, prefetched = False\<rparr>"
  have inv: "streaming_inv st ?r" using assms(1) by (simp add: streaming_inv_def)
  obtain pre idx post where sp: "indexes ?r = pre @ idx # post" "int (idx_offset idx) \<le> 0"
      "list_all (\<lambda>i. 0 < int (idx_offset i)) post"
    using seek_split[of idxs 0] assms by (auto simp: well_indexed_def)
  have "seek st 0 ?r = Inr (seek_target st 0 ?r idx post)"
    using inv _ sp by (rule seek_found) simp
  then have "ChunkedFileBlobIndexWrapper st idxs False = Inr (seek_target st 0 ?r idx post)"
    by (simp add: ChunkedFileBlobIndexWrapper_def reader_open_def)
  moreover have "indexes (seek_target st 0 ?r idx post) = idxs" by (simp add: seek_target_def)
  ultimately show ?thesis using seek_target_inv[OF inv sp] by simp
qed

lemma take_1_drop: "p < length xs \<Longrightarrow> take (Suc 0) (drop p xs) = [xs ! p]"
  by (metis Cons_nth_drop_Suc take0 take_Suc_Cons)

lemma read_at_position:
  assumes inv: "streaming_inv st r" and ix: "indexes r = idxs" and t: "tell r = Inr p"
  shows "(n < 0 \<longrightarrow>
                 (\<exists>r'. read st n r = Inr (drop p (whole st idxs), r') \<and>
                       streaming_inv st r' \<and> indexes r' = idxs)) \<and>
              (0 \<le> n \<longrightarrow>
                 (\<exists>bs r'. read st n r = Inr (bs, r') \<and>
                       bs = take (nat n) (drop p (whole st idxs)) \<and>
                       length bs = min (nat n) (length (whole st idxs) - p) \<and>
                       streaming_inv st r' \<and> indexes r' = idxs \<and>
                       (in_range r \<longrightarrow> in_range r' \<and> tell r' = Inr (p + length bs))))"
proof -
  have op: "\<not> closed r" "\<not> prefetched r" using inv by (simp_all add: streaming_inv_def)
  have pend: "pending st r = drop p (whole st idxs)"
    using inv_tell[OF inv] t ix by auto
  have neg: "\<exists>r'. read st n r = Inr (drop p (whole st idxs), r') \<and>
               streaming_inv st r' \<and> indexes r' = idxs" if "n < 0"
    using read_all_inv[OF inv, of "[]"] that op pend ix by (auto simp: read_def)
  have nonneg: "\<exists>bs r'. read st n r = Inr (bs, r') \<and>
                     bs = take (nat n) (drop p (whole st idxs)) \<and>
                     length bs = min (nat n) (length (whole st idxs) - p) \<and>
                     streaming_inv st r' \<and> indexes r' = idxs \<and>
                     (in_range r \<longrightarrow> in_range r' \<and> tell r' = Inr (p + length bs))"
    if n0: "0 \<le> n"
  proof -
    obtain r' where r': "read_n st n r [] = Inr (take (nat n) (pending st r), r')"
        "streaming_inv st r'" "pending st r' = drop (nat n) (pending st r)"
        "indexes r' = indexes r" "in_range r \<longrightarrow> in_range r'"
      using read_n_inv[OF inv n0, of "[]"] by auto
    have rd: "read st n r = Inr (take (nat n) (drop p (whole st idxs)), r')"
      using r'(1) op n0 pend by (simp add: read_def)
    have tl: "tell r' = Inr (p + length (take (nat n) (drop p (whole st idxs))))"
      if ir: "in_range r"
    proof -
      have "tell r = Inr (length (whole st idxs) - length (pending st r))"
        using inv_tell_in_range[OF inv ir] ix by simp
      then have p: "p = length (whole st idxs) - length (drop p (whole st idxs))"
        using t pend by simp
      have "tell r' = Inr (length (whole st idxs) - length (pending st r'))"
        using inv_tell_in_range[OF r'(2)] r'(5) ir r'(4) ix by simp
      moreover have "length (whole st idxs) - length (pending st r')
                     = p + length (take (nat n) (drop p (whole st idxs)))"
        using p r'(3) pend by (simp add: min_def)
      ultimately show ?thesis by simp
    qed
    show ?thesis using rd r'(2,4,5) ix tl by (auto simp: min_def)
  qed
  show ?thesis using neg nonneg by blast
qed

section \<open>Sequential reads of the chunked stream\<close>

text \<open>
  Files with at least one index entry. Over a well-indexed, non-empty list of
  entries the streaming-mode
  constructor succeeds and leaves the reader at position 0; \<open>read\<close> with a
  negative \<open>n\<close> then returns the concatenation of all the blobs in index order.
  From every state of an open streaming reader at position \<open>p\<close>, \<open>read(n)\<close> with
  \<open>n \<ge> 0\<close> returns the next \<open>min n (total - p)\<close> bytes of the concatenation,
  whatever blob boundaries lie in between, and a negative \<open>n\<close> returns all the
  bytes from \<open>p\<close> on; the reader stays a well-formed streaming reader.
\<close>

theorem streaming_read_is_concatenation:
  assumes "well_indexed st idxs" and "idxs \<noteq> []"
  shows "\<exists>r0. ChunkedFileBlobIndexWrapper st idxs False = Inr r0 \<and>
           streaming_inv st r0 \<and> in_range r0 \<and> indexes r0 = idxs \<and> tell r0 = Inr 0 \<and>
           (\<forall>n<0. \<exists>r'. read st n r0 = Inr (whole st idxs, r')) \<and>
           (\<forall>r p n. streaming_inv st r \<and> indexes r = idxs \<and> tell r = Inr p \<longrightarrow>
              (n < 0 \<longrightarrow>
                 (\<exists>r'. read st n r = Inr (drop p (whole st idxs), r') \<and>
                       streaming_inv st r' \<and> indexes r' = idxs)) \<and>
              (0 \<le> n \<longrightarrow>
                 (\<exists>bs r'. read st n r = Inr (bs, r') \<and>
                       bs = take (nat n) (drop p (whole st idxs)) \<and>
                       length bs = min (nat n) (length (whole st idxs) - p) \<and>
                       streaming_inv st r' \<and> indexes r' = idxs \<and>
                       (in_range r \<longrightarrow> in_range r' \<and> tell r' = Inr (p + length bs)))))"
proof -
  note gen = read_at_position
  obtain r0 where r0: "ChunkedFileBlobIndexWrapper st idxs False = Inr r0" "streaming_inv st r0"
      "in_range r0" "indexes r0 = idxs" "tell r0 = Inr 0"
    using constructor_streaming[OF assms] by blast
  have "\<forall>n<0. \<exists>r'. read st n r0 = Inr (whole st idxs, r')"
    using gen[OF r0(2,4,5)] by fastforce
  then show ?thesis using r0 gen by blast
qed

lemma ex_well_indexed: "well_indexed ex_storage ex_indexes"
  by (simp add: well_indexed_def ex_indexes_def ex_index_def ex_blob_def ex_storage_def
      blob_stored_def getfile_def)

lemma ex_whole: "whole ex_storage ex_indexes = [1, 2, 3, 7, 8]"
  by (simp add: whole_def blob_bytes_def ex_indexes_def ex_index_def ex_blob_def ex_storage_def
      getfile_def)


theorem streaming_read_is_concatenation_witness:
  "well_indexed ex_storage ex_indexes \<and> ex_indexes \<noteq> [] \<and>
   (\<exists>r0. ChunkedFileBlobIndexWrapper ex_storage ex_indexes False = Inr r0 \<and>
      tell r0 = Inr 0 \<and>
      (\<exists>r1. read ex_storage (- 1) r0 = Inr ([1, 2, 3, 7, 8], r1)) \<and>
      (\<exists>r1. read ex_storage 4 r0 = Inr ([1, 2, 3, 7], r1) \<and> tell r1 = Inr 4) \<and>
      (\<exists>r1. read ex_storage 9 r0 = Inr ([1, 2, 3, 7, 8], r1) \<and> tell r1 = Inr 5))"
proof -
  have ne: "ex_indexes \<noteq> []" by (simp add: ex_indexes_def)
  from streaming_read_is_concatenation[OF ex_well_indexed ne, unfolded ex_whole]
  obtain r0 where q: "ChunkedFileBlobIndexWrapper ex_storage ex_indexes False = Inr r0 \<and>
           streaming_inv ex_storage r0 \<and> in_range r0 \<and> indexes r0 = ex_indexes \<and> tell r0 = Inr 0 \<and>
           (\<forall>n<0. \<exists>r'. read ex_storage n r0 = Inr ([1, 2, 3, 7, 8], r')) \<and>
           (\<forall>r p n. streaming_inv ex_storage r \<and> indexes r = ex_indexes \<and> tell r = Inr p \<longrightarrow>
              (n < 0 \<longrightarrow>
                 (\<exists>r'. read ex_storage n r = Inr (drop p [1, 2, 3, 7, 8], r') \<and>
                       streaming_inv ex_storage r' \<and> indexes r' = ex_indexes)) \<and>
              (0 \<le> n \<longrightarrow>
                 (\<exists>bs r'. read ex_storage n r = Inr (bs, r') \<and>
                       bs = take (nat n) (drop p [1, 2, 3, 7, 8]) \<and>
                       length bs = min (nat n) (length [1, 2, 3, 7, 8 :: byte] - p) \<and>
                       streaming_inv ex_storage r' \<and> indexes r' = ex_indexes \<and>
                       (in_range r \<longrightarrow> in_range r' \<and> tell r' = Inr (p + length bs)))))" ..
  note c1 = q[THEN conjunct1]
  note c2 = q[THEN conjunct2, THEN conjunct1]
  note c3 = q[THEN conjunct2, THEN conjunct2, THEN conjunct1]
  note c4 = q[THEN conjunct2, THEN conjunct2, THEN conjunct2, THEN conjunct1]
  note c5 = q[THEN conjunct2, THEN conjunct2, THEN conjunct2, THEN conjunct2, THEN conjunct1]
  note c6 = q[THEN conjunct2, THEN conjunct2, THEN conjunct2, THEN conjunct2, THEN conjunct2,
              THEN conjunct1]
  note c7 = q[THEN conjunct2, THEN conjunct2, THEN conjunct2, THEN conjunct2, THEN conjunct2,
              THEN conjunct2]
  have a: "\<exists>r1. read ex_storage (- 1) r0 = Inr ([1, 2, 3, 7, 8], r1)"
    using c6[THEN spec[of _ "- 1"]] by simp
  have b: "\<exists>r1. read ex_storage 4 r0 = Inr ([1, 2, 3, 7], r1) \<and> tell r1 = Inr 4"
    using c7[THEN spec[of _ r0], THEN spec[of _ 0], THEN spec[of _ 4]] c2 c3 c4 c5
    by (auto simp: eval_nat_numeral)
  have c: "\<exists>r1. read ex_storage 9 r0 = Inr ([1, 2, 3, 7, 8], r1) \<and> tell r1 = Inr 5"
    using c7[THEN spec[of _ r0], THEN spec[of _ 0], THEN spec[of _ 9]] c2 c3 c4 c5
    by (auto simp: eval_nat_numeral)
  have "\<exists>r0. ChunkedFileBlobIndexWrapper ex_storage ex_indexes False = Inr r0 \<and>
      tell r0 = Inr 0 \<and>
      (\<exists>r1. read ex_storage (- 1) r0 = Inr ([1, 2, 3, 7, 8], r1)) \<and>
      (\<exists>r1. read ex_storage 4 r0 = Inr ([1, 2, 3, 7], r1) \<and> tell r1 = Inr 4) \<and>
      (\<exists>r1. read ex_storage 9 r0 = Inr ([1, 2, 3, 7, 8], r1) \<and> tell r1 = Inr 5)"
    by (rule exI[of _ r0]) (simp only: c1 c5 a b c simp_thms)
  then show ?thesis using ex_well_indexed ne by simp
qed

section \<open>Random access: \<open>seek\<close>\<close>

lemma seek_negative:
  "\<not> closed r \<Longrightarrow> \<not> prefetched r \<Longrightarrow> pos < 0 \<Longrightarrow>
   seek st pos r = Inl (IOError ''Invalid argument'')"
  by (simp add: seek_def)

lemma seek_uncovered:
  "\<not> closed r \<Longrightarrow> \<not> prefetched r \<Longrightarrow> 0 \<le> pos \<Longrightarrow>
   list_all (\<lambda>i. pos < int (idx_offset i)) (indexes r) \<Longrightarrow>
   seek st pos r = Inl (ValueError ''Cannot seek to pos'')"
proof -
  assume a: "\<not> closed r" "\<not> prefetched r" "0 \<le> pos"
    and "list_all (\<lambda>i. pos < int (idx_offset i)) (indexes r)"
  then have "list_all (\<lambda>i. pos < int (idx_offset i)) (rev (indexes r))"
    by (simp add: list_all_iff)
  then have "seek_scan 0 pos (rev (indexes r)) = None" by (simp add: seek_scan_None)
  then show ?thesis using a by (simp add: seek_def)
qed

lemma seek_same_entry:
  assumes inv: "streaming_inv st r" and pos: "0 \<le> pos"
    and sp: "indexes r = pre @ idx # post"
    and le: "int (idx_offset idx) \<le> pos"
    and post: "list_all (\<lambda>i. pos < int (idx_offset i)) post"
    and cur: "curidx r = Some idx"
  shows "\<exists>f. curfile r = Some f \<and>
           (\<forall>st'. seek st' pos r
                    = Inr (r\<lparr>curfile := Some (f\<lparr>s_pos := nat (pos - int (idx_offset idx))\<rparr>)\<rparr>))"
proof -
  have open_r: "\<not> closed r" "\<not> prefetched r" using inv by (simp_all add: streaming_inv_def)
  obtain f where f: "curfile r = Some f"
    using inv cur by (cases "curfile r") (auto simp: streaming_inv_def)
  have sc: "seek_scan 0 pos (rev (indexes r)) = Some (length post, idx)"
    using sp le post by (rule seek_scan_found)
  have "seek st' pos r
          = Inr (r\<lparr>curfile := Some (f\<lparr>s_pos := nat (pos - int (idx_offset idx))\<rparr>)\<rparr>)" for st'
    using open_r pos sc cur f le by (simp add: seek_def idx_ne_def stream_seek_def)
  then show ?thesis using f by simp
qed

lemma read_after_seek:
  assumes inv: "streaming_inv st r" and pos: "0 \<le> pos"
    and sp: "indexes r = pre @ idx # post"
    and le: "int (idx_offset idx) \<le> pos"
    and post: "list_all (\<lambda>i. pos < int (idx_offset i)) post"
  shows "pos < int (length (whole st (indexes r))) \<Longrightarrow>
           \<exists>r''. read st 1 (seek_target st pos r idx post)
                   = Inr ([whole st (indexes r) ! nat pos], r'')"
    and "int (length (whole st (indexes r))) \<le> pos \<Longrightarrow>
           \<exists>r''. read st n (seek_target st pos r idx post) = Inr ([], r'')"
proof -
  let ?t = "seek_target st pos r idx post"
  note ti = seek_target_inv(1,2)[OF inv sp le post]
  have ix: "indexes ?t = indexes r" by (simp add: seek_target_def)
  note rd = read_at_position[OF ti(1) ix ti(2)]
  show "\<exists>r''. read st 1 ?t = Inr ([whole st (indexes r) ! nat pos], r'')"
    if "pos < int (length (whole st (indexes r)))"
  proof -
    have "nat pos < length (whole st (indexes r))" using that pos by simp
    then have "take (Suc 0) (drop (nat pos) (whole st (indexes r))) = [whole st (indexes r) ! nat pos]"
      by (rule take_1_drop)
    then show ?thesis using rd[of 1] by auto
  qed
  show "\<exists>r''. read st n ?t = Inr ([], r'')"
    if "int (length (whole st (indexes r))) \<le> pos"
  proof -
    have "drop (nat pos) (whole st (indexes r)) = []" using that by simp
    then show ?thesis using rd[of n] by (cases "n < 0") auto
  qed
qed

text \<open>
  Claim C4, as the code has it. In streaming mode \<open>seek(pos)\<close> raises for a
  negative \<open>pos\<close>, and raises when no index entry has an offset at most \<open>pos\<close>.
  A position after the end of the last blob is not refused. For \<open>pos \<ge> 0\<close> over
  a well-indexed, non-empty list it selects the last entry whose offset is at
  most \<open>pos\<close> (every later entry starts after \<open>pos\<close>), leaves that blob's stream
  at \<open>pos - offset\<close> with the following entries in the iterator, and \<open>tell\<close> then
  gives \<open>pos\<close>. When the selected entry is the current one the open stream is
  kept and only repositioned: the result does not depend on the storage. A
  one-byte read after a seek inside the file returns the byte at \<open>pos\<close> of the
  concatenation; after a seek to the end or beyond, reads return no bytes.
\<close>

theorem seek_selects_last_entry_not_after_pos:
  assumes "streaming_inv st r"
  shows "(pos < 0 \<longrightarrow> seek st pos r = Inl (IOError ''Invalid argument'')) \<and>
         (0 \<le> pos \<and> list_all (\<lambda>i. pos < int (idx_offset i)) (indexes r) \<longrightarrow>
            seek st pos r = Inl (ValueError ''Cannot seek to pos'')) \<and>
         (0 \<le> pos \<and> indexes r \<noteq> [] \<longrightarrow>
            (\<exists>pre idx post.
               indexes r = pre @ idx # post \<and> int (idx_offset idx) \<le> pos \<and>
               list_all (\<lambda>i. pos < int (idx_offset i)) post \<and>
               seek st pos r = Inr (seek_target st pos r idx post) \<and>
               streaming_inv st (seek_target st pos r idx post) \<and>
               tell (seek_target st pos r idx post) = Inr (nat pos) \<and>
               (curidx r = Some idx \<longrightarrow>
                  (\<exists>f. curfile r = Some f \<and>
                     (\<forall>st'. seek st' pos r
                        = Inr (r\<lparr>curfile :=
                                  Some (f\<lparr>s_pos := nat (pos - int (idx_offset idx))\<rparr>)\<rparr>)))) \<and>
               (pos < int (length (whole st (indexes r))) \<longrightarrow>
                  (\<exists>r''. read st 1 (seek_target st pos r idx post)
                          = Inr ([whole st (indexes r) ! nat pos], r''))) \<and>
               (int (length (whole st (indexes r))) \<le> pos \<longrightarrow>
                  (\<forall>n. \<exists>r''. read st n (seek_target st pos r idx post) = Inr ([], r'')))))"
proof -
  have open_r: "\<not> closed r" "\<not> prefetched r"
    using assms by (simp_all add: streaming_inv_def)
  have cum: "cumulative 0 (indexes r)"
    using assms by (simp add: streaming_inv_def well_indexed_def)
  have found: "\<exists>pre idx post.
               indexes r = pre @ idx # post \<and> int (idx_offset idx) \<le> pos \<and>
               list_all (\<lambda>i. pos < int (idx_offset i)) post \<and>
               seek st pos r = Inr (seek_target st pos r idx post) \<and>
               streaming_inv st (seek_target st pos r idx post) \<and>
               tell (seek_target st pos r idx post) = Inr (nat pos) \<and>
               (curidx r = Some idx \<longrightarrow>
                  (\<exists>f. curfile r = Some f \<and>
                     (\<forall>st'. seek st' pos r
                        = Inr (r\<lparr>curfile :=
                                  Some (f\<lparr>s_pos := nat (pos - int (idx_offset idx))\<rparr>)\<rparr>)))) \<and>
               (pos < int (length (whole st (indexes r))) \<longrightarrow>
                  (\<exists>r''. read st 1 (seek_target st pos r idx post)
                          = Inr ([whole st (indexes r) ! nat pos], r''))) \<and>
               (int (length (whole st (indexes r))) \<le> pos \<longrightarrow>
                  (\<forall>n. \<exists>r''. read st n (seek_target st pos r idx post) = Inr ([], r'')))"
    if p: "0 \<le> pos" and ne: "indexes r \<noteq> []"
  proof -
    obtain pre idx post where sp: "indexes r = pre @ idx # post" "int (idx_offset idx) \<le> pos"
        "list_all (\<lambda>i. pos < int (idx_offset i)) post"
      using seek_split[OF cum ne p] by blast
    note a = seek_found[OF assms p sp]
    note b = seek_target_inv(1,2)[OF assms sp]
    note c = seek_same_entry[OF assms p sp]
    note d = read_after_seek[OF assms p sp]
    show ?thesis
      apply (rule exI[of _ pre], rule exI[of _ idx], rule exI[of _ post])
      using sp a b c d by blast
  qed
  show ?thesis using seek_negative[OF open_r] seek_uncovered[OF open_r] found by blast
qed

text \<open>The example reader as the constructor leaves it, and a reader without entries.\<close>

definition ex_opened :: reader where
  "ex_opened =
     \<lparr>indexes = ex_indexes, curfile = Some \<lparr>s_data = [1, 2, 3], s_pos = 0\<rparr>,
      curidx = Some (ex_index 1 (ex_blob 1 ''a'' 3) 0),
      idxiter = [ex_index 2 (ex_blob 2 ''b'' 2) 3],
      closed = False, prefetched = False\<rparr>"

definition ex_empty :: reader where
  "ex_empty = \<lparr>indexes = [], curfile = None, curidx = None, idxiter = [],
                closed = False, prefetched = False\<rparr>"

lemma ex_opened_inv: "streaming_inv ex_storage ex_opened"
  using ex_well_indexed
  by (simp add: streaming_inv_def ex_opened_def ex_indexes_def blob_bytes_def getfile_def
      ex_index_def ex_blob_def ex_storage_def)

lemma ex_empty_inv: "streaming_inv ex_storage ex_empty"
  by (simp add: streaming_inv_def ex_empty_def well_indexed_def)

text \<open>
  The claim as stated fails: the example file has 5 bytes, and \<open>seek(9)\<close> on its
  reader succeeds, leaving the stream of the last blob (2 bytes, offset 3) at 6.
\<close>

theorem seek_beyond_total_size_counterexample:
  "ChunkedFileBlobIndexWrapper ex_storage ex_indexes False = Inr ex_opened \<and>
   reader_size ex_opened = Inr 5 \<and>
   seek ex_storage 9 ex_opened
     = Inr (ex_opened\<lparr>idxiter := [], curidx := Some (ex_index 2 (ex_blob 2 ''b'' 2) 3),
                      curfile := Some \<lparr>s_data = [7, 8], s_pos = 6\<rparr>\<rparr>)"
  by (simp add: ChunkedFileBlobIndexWrapper_def reader_open_def seek_def nextidx_def
      getfile_def stream_seek_def idx_ne_def reader_size_def ex_opened_def ex_indexes_def
      ex_index_def ex_blob_def ex_storage_def)

theorem seek_selects_last_entry_not_after_pos_witness:
  "streaming_inv ex_storage ex_opened \<and> streaming_inv ex_storage ex_empty \<and>
   seek ex_storage (- 1) ex_opened = Inl (IOError ''Invalid argument'') \<and>
   seek ex_storage 0 ex_empty = Inl (ValueError ''Cannot seek to pos'') \<and>
   (\<exists>r'. seek ex_storage 4 ex_opened = Inr r' \<and> tell r' = Inr 4 \<and>
         (\<exists>r''. read ex_storage 1 r' = Inr ([8], r''))) \<and>
   (\<exists>r'. seek ex_storage 9 ex_opened = Inr r' \<and> tell r' = Inr 9 \<and>
         (\<exists>r''. read ex_storage (- 1) r' = Inr ([], r'')))"
proof -
  have ix: "indexes ex_opened = ex_indexes" "indexes ex_empty = []"
    by (simp_all add: ex_opened_def ex_empty_def)
  have ne: "ex_indexes \<noteq> []" by (simp add: ex_indexes_def)
  have a: "seek ex_storage (- 1) ex_opened = Inl (IOError ''Invalid argument'')"
    using seek_selects_last_entry_not_after_pos[OF ex_opened_inv, of "- 1", THEN conjunct1]
    by simp
  have b: "seek ex_storage 0 ex_empty = Inl (ValueError ''Cannot seek to pos'')"
    using seek_selects_last_entry_not_after_pos[OF ex_empty_inv, of 0, THEN conjunct2,
        THEN conjunct1] ix(2)
    by simp
  have c: "\<exists>r'. seek ex_storage 4 ex_opened = Inr r' \<and> tell r' = Inr 4 \<and>
         (\<exists>r''. read ex_storage 1 r' = Inr ([8], r''))"
  proof -
    from seek_selects_last_entry_not_after_pos[OF ex_opened_inv, of 4, THEN conjunct2,
        THEN conjunct2] ix(1) ne
    obtain pre idx post where
      "seek ex_storage 4 ex_opened = Inr (seek_target ex_storage 4 ex_opened idx post)"
      "tell (seek_target ex_storage 4 ex_opened idx post) = Inr (nat 4)"
      "4 < int (length (whole ex_storage (indexes ex_opened))) \<longrightarrow>
         (\<exists>r''. read ex_storage 1 (seek_target ex_storage 4 ex_opened idx post)
                = Inr ([whole ex_storage (indexes ex_opened) ! nat 4], r''))"
      by auto
    then show ?thesis using ix(1) ex_whole by (auto simp: eval_nat_numeral)
  qed
  have d: "\<exists>r'. seek ex_storage 9 ex_opened = Inr r' \<and> tell r' = Inr 9 \<and>
         (\<exists>r''. read ex_storage (- 1) r' = Inr ([], r''))"
  proof -
    from seek_selects_last_entry_not_after_pos[OF ex_opened_inv, of 9, THEN conjunct2,
        THEN conjunct2] ix(1) ne
    obtain pre idx post where
      "seek ex_storage 9 ex_opened = Inr (seek_target ex_storage 9 ex_opened idx post)"
      "tell (seek_target ex_storage 9 ex_opened idx post) = Inr (nat 9)"
      "int (length (whole ex_storage (indexes ex_opened))) \<le> 9 \<longrightarrow>
         (\<forall>n. \<exists>r''. read ex_storage n (seek_target ex_storage 9 ex_opened idx post)
                = Inr ([], r''))"
      by auto
    then show ?thesis using ix(1) ex_whole by auto
  qed
  show ?thesis using ex_opened_inv ex_empty_inv a b c d by (simp only: simp_thms)
qed

section \<open>The blob store\<close>

text \<open>
  The database tables, the storage backend and the sources of time and
  randomness, as one state. \<open>saves\<close> logs the paths given to \<open>storage.save\<close>, one
  entry per physical write. The SHA-1 function is a parameter \<open>sha1\<close> of the
  operations (bytes to hex digest); a \<open>hashlib\<close> object is modelled by the bytes
  fed to it so far, its \<open>hexdigest()\<close> being \<open>sha1\<close> of them. The per-checksum lock
  excludes other uploaders and has no effect on a single caller; it is left out.
\<close>

record File =
  file_id :: nat
  file_name :: string
  file_type :: string
  file_size :: "nat option"
  file_checksum :: "string option"

record world =
  fileblob_table :: "FileBlob list"
  fileblobindex_table :: "FileBlobIndex list"
  fileblobowner_table :: "(nat \<times> nat) list"
  file_table :: "nat \<rightharpoonup> File"
  store :: storage
  saves :: "string list"
  next_blob_id :: nat
  next_index_id :: nat
  clock :: nat
  uuids :: "nat \<Rightarrow> string"
  uuid_count :: nat

definition ONE_DAY :: nat where
  "ONE_DAY = 60 * 60 * 24"

definition DEFAULT_BLOB_SIZE :: int where
  "DEFAULT_BLOB_SIZE = 1024 * 1024"

fun text_type :: "nat \<Rightarrow> string" where
  "text_type n =
     (if n < 10 then [''0123456789'' ! n]
      else text_type (n div 10) @ [''0123456789'' ! (n mod 10)])"

declare text_type.simps [simp del]

text \<open>\<open>_get_size_and_checksum\<close>: read 65536 bytes at a time until nothing comes.\<close>

function size_and_checksum_loop :: "stream \<Rightarrow> nat \<Rightarrow> bytes \<Rightarrow> nat \<times> bytes" where
  "size_and_checksum_loop fileobj sz h =
     (if fst (stream_read 65536 fileobj) = [] then (sz, h)
      else size_and_checksum_loop (snd (stream_read 65536 fileobj))
             (sz + length (fst (stream_read 65536 fileobj)))
             (h @ fst (stream_read 65536 fileobj)))"
  by pat_completeness auto
termination
  apply (relation "measure (\<lambda>(fileobj, sz, h). length (s_data fileobj) - s_pos fileobj)")
   apply simp
  apply (auto simp: stream_read_def Let_def split: if_splits)
  done

declare size_and_checksum_loop.simps [simp del]

definition get_size_and_checksum :: "(bytes \<Rightarrow> string) \<Rightarrow> stream \<Rightarrow> nat \<times> string" where
  "get_size_and_checksum sha1 fileobj =
     (case size_and_checksum_loop fileobj 0 [] of (sz, h) \<Rightarrow> (sz, sha1 h))"

text \<open>
  \<open>_locked_blob\<close>: \<open>FileBlob.objects.get(checksum=checksum)\<close>, \<open>None\<close> when no row
  matches.
\<close>

definition locked_blob :: "string \<Rightarrow> world \<Rightarrow> error + FileBlob option" where
  "locked_blob checksum w =
     (case filter (\<lambda>b. blob_checksum b = checksum) (fileblob_table w) of
        [] \<Rightarrow> Inr None
      | [b] \<Rightarrow> Inr (Some b)
      | _ \<Rightarrow> Inl MultipleObjectsReturned)"

definition generate_unique_path :: "nat \<Rightarrow> world \<Rightarrow> string \<times> world" where
  "generate_unique_path timestamp w =
     (text_type (timestamp div ONE_DAY) @ ''/'' @ text_type (timestamp mod ONE_DAY) @ ''/''
        @ uuids w (uuid_count w),
      w\<lparr>uuid_count := Suc (uuid_count w)\<rparr>)"

text \<open>\<open>storage.save(path, fileobj)\<close> stores the whole content of the file object.\<close>

definition storage_save :: "string \<Rightarrow> stream \<Rightarrow> world \<Rightarrow> world" where
  "storage_save path fileobj w =
     w\<lparr>store := (store w)(path \<mapsto> s_data fileobj), saves := saves w @ [path]\<rparr>"

text \<open>
  \<open>FileBlob.size\<close>, \<open>File.size\<close> and \<open>FileBlobIndex.offset\<close> are declared as
  \<open>BoundedPositiveIntegerField\<close>. The class is defined in \<open>sentry.db.models\<close>, which
  is not among the sources read here; it is taken with the bound of a signed
  32-bit column, \<open>MAX_VALUE = 2147483647\<close>, and with an assertion that fails when a
  larger value is prepared for the database. \<open>None\<close> is passed through.
\<close>

definition MAX_VALUE :: nat where
  "MAX_VALUE = 2147483647"

definition out_of_range :: "nat option \<Rightarrow> bool" where
  "out_of_range v = (case v of None \<Rightarrow> False | Some n \<Rightarrow> MAX_VALUE < n)"

text \<open>
  \<open>blob.save()\<close> inserts the row under a fresh primary key; the size must be in
  range and the column \<open>checksum\<close> is \<open>unique\<close>.
\<close>

definition save_blob :: "FileBlob \<Rightarrow> world \<Rightarrow> (error + FileBlob) \<times> world" where
  "save_blob b w =
     (if out_of_range (blob_size b) then (Inl AssertionError, w)
      else if blob_checksum b \<in> set (map blob_checksum (fileblob_table w))
      then (Inl IntegrityError, w)
      else (Inr (b\<lparr>blob_id := next_blob_id w\<rparr>),
            w\<lparr>fileblob_table := fileblob_table w @ [b\<lparr>blob_id := next_blob_id w\<rparr>],
              next_blob_id := Suc (next_blob_id w)\<rparr>))"

text \<open>
  \<open>cls(size=size, checksum=checksum)\<close> with its path: an object without a primary
  key yet (the \<open>0\<close> is replaced when the row is saved).
\<close>

definition new_blob :: "nat \<Rightarrow> string \<Rightarrow> string \<Rightarrow> nat \<Rightarrow> FileBlob" where
  "new_blob sz checksum path timestamp =
     \<lparr>blob_id = 0, blob_path = Some path, blob_size = Some sz, blob_checksum = checksum,
      blob_timestamp = timestamp\<rparr>"

definition from_file :: "(bytes \<Rightarrow> string) \<Rightarrow> stream \<Rightarrow> world \<Rightarrow> (error + FileBlob) \<times> world" where
  "from_file sha1 fileobj w =
     (case get_size_and_checksum sha1 fileobj of
        (sz, checksum) \<Rightarrow>
          (case locked_blob checksum w of
             Inl e \<Rightarrow> (Inl e, w)
           | Inr (Some existing) \<Rightarrow> (Inr existing, w)
           | Inr None \<Rightarrow>
               (case generate_unique_path (clock w) w of
                  (path, w1) \<Rightarrow>
                    save_blob (new_blob sz checksum path (clock w))
                      (storage_save path fileobj w1))))"

subsection \<open>Single-file intake\<close>

lemma size_and_checksum_loop_eq:
  "size_and_checksum_loop f sz h = (sz + length (remaining f), h @ remaining f)"
proof (induction f sz h rule: size_and_checksum_loop.induct)
  case (1 f sz h)
  show ?case
  proof (cases "fst (stream_read 65536 f) = []")
    case True
    then have "remaining f = []" by (intro stream_read_empty[of 65536]) simp_all
    then show ?thesis using True by (subst size_and_checksum_loop.simps) simp
  next
    case False
    have "fst (stream_read 65536 f) @ remaining (snd (stream_read 65536 f)) = remaining f"
      by (metis stream_read_prefix stream_read_remaining append_take_drop_id)
    then show ?thesis using False "1.IH"[OF False]
      by (subst size_and_checksum_loop.simps) (auto simp flip: length_append)
  qed
qed

lemma get_size_and_checksum_eq:
  "get_size_and_checksum sha1 f = (length (remaining f), sha1 (remaining f))"
  by (simp add: get_size_and_checksum_def size_and_checksum_loop_eq)

lemma remaining_ContentFile [simp]: "remaining (ContentFile bs) = bs"
  by (simp add: remaining_def ContentFile_def)

lemma s_data_ContentFile [simp]: "s_data (ContentFile bs) = bs"
  by (simp add: ContentFile_def)

lemma filter_key_absent: "c \<notin> g ` set xs \<Longrightarrow> filter (\<lambda>y. g y = c) xs = []"
  by (induction xs) auto

lemma filter_distinct_key:
  "distinct (map g xs) \<Longrightarrow> x \<in> set xs \<Longrightarrow> filter (\<lambda>y. g y = g x) xs = [x]"
proof (induction xs)
  case Nil
  then show ?case by simp
next
  case (Cons a xs)
  show ?case
  proof (cases "a = x")
    case True
    then have "g x \<notin> g ` set xs" using Cons.prems by simp
    then have "filter (\<lambda>y. g y = g x) xs = []" by (rule filter_key_absent)
    then show ?thesis using True by simp
  next
    case False
    then have "x \<in> set xs" using Cons.prems by simp
    moreover have "g a \<noteq> g x" using Cons.prems calculation by auto
    ultimately show ?thesis using Cons by simp
  qed
qed

lemma locked_blob_existing:
  "distinct (map blob_checksum (fileblob_table w)) \<Longrightarrow> b \<in> set (fileblob_table w) \<Longrightarrow>
   locked_blob (blob_checksum b) w = Inr (Some b)"
  by (simp add: locked_blob_def filter_distinct_key)

lemma locked_blob_absent:
  "c \<notin> set (map blob_checksum (fileblob_table w)) \<Longrightarrow> locked_blob c w = Inr None"
proof -
  assume "c \<notin> set (map blob_checksum (fileblob_table w))"
  then have "filter (\<lambda>b. blob_checksum b = c) (fileblob_table w) = []"
    by (intro filter_key_absent) simp
  then show ?thesis by (simp add: locked_blob_def)
qed

definition created_blob :: "(bytes \<Rightarrow> string) \<Rightarrow> bytes \<Rightarrow> world \<Rightarrow> FileBlob" where
  "created_blob sha1 bs w =
     (new_blob (length bs) (sha1 bs) (fst (generate_unique_path (clock w) w)) (clock w))
       \<lparr>blob_id := next_blob_id w\<rparr>"

definition world_after_create :: "(bytes \<Rightarrow> string) \<Rightarrow> bytes \<Rightarrow> world \<Rightarrow> world" where
  "world_after_create sha1 bs w =
     w\<lparr>uuid_count := Suc (uuid_count w),
       store := (store w)(fst (generate_unique_path (clock w) w) \<mapsto> bs),
       saves := saves w @ [fst (generate_unique_path (clock w) w)],
       fileblob_table := fileblob_table w @ [created_blob sha1 bs w],
       next_blob_id := Suc (next_blob_id w)\<rparr>"

lemma from_file_hit:
  "distinct (map blob_checksum (fileblob_table w)) \<Longrightarrow> b \<in> set (fileblob_table w) \<Longrightarrow>
   blob_checksum b = sha1 (remaining fileobj) \<Longrightarrow> from_file sha1 fileobj w = (Inr b, w)"
  using locked_blob_existing[of w b]
  by (simp add: from_file_def get_size_and_checksum_eq)

lemma from_file_miss:
  "sha1 bs \<notin> set (map blob_checksum (fileblob_table w)) \<Longrightarrow> length bs \<le> MAX_VALUE \<Longrightarrow>
   from_file sha1 (ContentFile bs) w
     = (Inr (created_blob sha1 bs w), world_after_create sha1 bs w)"
  by (simp add: from_file_def get_size_and_checksum_eq locked_blob_absent
      generate_unique_path_def storage_save_def save_blob_def created_blob_def
      world_after_create_def new_blob_def out_of_range_def)

lemma from_file_too_big:
  "sha1 bs \<notin> set (map blob_checksum (fileblob_table w)) \<Longrightarrow> MAX_VALUE < length bs \<Longrightarrow>
   from_file sha1 (ContentFile bs) w
     = (Inl AssertionError,
        w\<lparr>uuid_count := Suc (uuid_count w),
          store := (store w)(fst (generate_unique_path (clock w) w) \<mapsto> bs),
          saves := saves w @ [fst (generate_unique_path (clock w) w)]\<rparr>)"
  by (simp add: from_file_def get_size_and_checksum_eq locked_blob_absent
      generate_unique_path_def storage_save_def save_blob_def new_blob_def out_of_range_def)


lemma from_file_keeps_distinct:
  "distinct (map blob_checksum (fileblob_table w)) \<Longrightarrow>
   sha1 bs \<notin> set (map blob_checksum (fileblob_table w)) \<Longrightarrow>
   distinct (map blob_checksum (fileblob_table (world_after_create sha1 bs w)))"
  by (simp add: world_after_create_def created_blob_def new_blob_def)

text \<open>
  Claim C1, for inputs that fit the \<open>size\<close> column. With the \<open>unique\<close> constraint
  on \<open>checksum\<close> holding in the table: when a row with the SHA-1 of the input
  exists, \<open>from_file\<close> returns that row and leaves everything as it was (no
  \<open>storage.save\<close>, no new row), whatever the length of the input; when none exists
  and the input has at most \<open>MAX_VALUE\<close> bytes it makes one \<open>storage.save\<close> of the
  input and appends one row, which it returns, and a second upload of the same
  bytes returns that same row and changes nothing.
\<close>

theorem from_file_deduplicates_by_checksum:
  assumes "distinct (map blob_checksum (fileblob_table w))"
  shows "(\<forall>b\<in>set (fileblob_table w). blob_checksum b = sha1 bs \<longrightarrow>
            from_file sha1 (ContentFile bs) w = (Inr b, w)) \<and>
         (sha1 bs \<notin> set (map blob_checksum (fileblob_table w)) \<and> length bs \<le> MAX_VALUE \<longrightarrow>
            (\<exists>blob w'. from_file sha1 (ContentFile bs) w = (Inr blob, w') \<and>
               fileblob_table w' = fileblob_table w @ [blob] \<and>
               blob_checksum blob = sha1 bs \<and> blob_size blob = Some (length bs) \<and>
               (\<exists>path. blob_path blob = Some path \<and> saves w' = saves w @ [path] \<and>
                       store w' path = Some bs) \<and>
               distinct (map blob_checksum (fileblob_table w')) \<and>
               from_file sha1 (ContentFile bs) w' = (Inr blob, w')))"
proof (intro conjI ballI impI)
  fix b assume "b \<in> set (fileblob_table w)" "blob_checksum b = sha1 bs"
  then show "from_file sha1 (ContentFile bs) w = (Inr b, w)"
    using from_file_hit[OF assms, of b sha1 "ContentFile bs"] by simp
next
  assume "sha1 bs \<notin> set (map blob_checksum (fileblob_table w)) \<and> length bs \<le> MAX_VALUE"
  then have miss: "sha1 bs \<notin> set (map blob_checksum (fileblob_table w))"
    and fits: "length bs \<le> MAX_VALUE" by simp_all
  let ?b = "created_blob sha1 bs w" and ?w = "world_after_create sha1 bs w"
  have d: "distinct (map blob_checksum (fileblob_table ?w))"
    using assms miss by (rule from_file_keeps_distinct)
  have again: "from_file sha1 (ContentFile bs) ?w = (Inr ?b, ?w)"
    by (rule from_file_hit[OF d])
       (simp_all add: world_after_create_def created_blob_def new_blob_def)
  have props: "fileblob_table ?w = fileblob_table w @ [?b]" "blob_checksum ?b = sha1 bs"
      "blob_size ?b = Some (length bs)"
      "\<exists>path. blob_path ?b = Some path \<and> saves ?w = saves w @ [path] \<and> store ?w path = Some bs"
    by (simp_all add: world_after_create_def created_blob_def new_blob_def)
  show "\<exists>blob w'. from_file sha1 (ContentFile bs) w = (Inr blob, w') \<and>
               fileblob_table w' = fileblob_table w @ [blob] \<and>
               blob_checksum blob = sha1 bs \<and> blob_size blob = Some (length bs) \<and>
               (\<exists>path. blob_path blob = Some path \<and> saves w' = saves w @ [path] \<and>
                       store w' path = Some bs) \<and>
               distinct (map blob_checksum (fileblob_table w')) \<and>
               from_file sha1 (ContentFile bs) w' = (Inr blob, w')"
    apply (rule exI[of _ ?b], rule exI[of _ ?w])
    using from_file_miss[of sha1 bs w, OF miss fits] d again props by (simp only: simp_thms)
qed

text \<open>
  Example data: a stand-in digest (one hex digit per byte; the theorems hold for
  every function \<open>sha1\<close>), and an empty world.
\<close>

definition ex_sha1 :: "bytes \<Rightarrow> string" where
  "ex_sha1 bs = map (\<lambda>b. ''0123456789abcdef'' ! (unat b mod 16)) bs"

definition ex_world :: world where
  "ex_world =
     \<lparr>fileblob_table = [], fileblobindex_table = [], fileblobowner_table = [],
      file_table = Map.empty, store = Map.empty, saves = [], next_blob_id = 1,
      next_index_id = 1, clock = 86400 * 3 + 17, uuids = (\<lambda>n. ''uuid'' @ text_type n),
      uuid_count = 0\<rparr>"

definition ex_hello :: bytes where
  "ex_hello = [104, 101, 108, 108, 111]"

definition ex_hello_blob :: FileBlob where
  "ex_hello_blob =
     \<lparr>blob_id = 1, blob_path = Some ''3/17/uuid0'', blob_size = Some 5,
      blob_checksum = ''85ccf'', blob_timestamp = 259217\<rparr>"

definition ex_world1 :: world where
  "ex_world1 =
     ex_world\<lparr>uuid_count := 1, store := [''3/17/uuid0'' \<mapsto> ex_hello],
              saves := [''3/17/uuid0''], fileblob_table := [ex_hello_blob],
              next_blob_id := 2\<rparr>"

lemma ex_sha1_hello: "ex_sha1 ex_hello = ''85ccf''"
  by (simp add: ex_sha1_def ex_hello_def)

lemma ex_hello_length: "length ex_hello = 5"
  by (simp add: ex_hello_def)

lemma ex_from_file_hello:
  "from_file ex_sha1 (ContentFile ex_hello) ex_world = (Inr ex_hello_blob, ex_world1)"
proof -
  have "ex_sha1 ex_hello \<notin> set (map blob_checksum (fileblob_table ex_world))"
    by (simp add: ex_world_def)
  moreover have "length ex_hello \<le> MAX_VALUE"
    by (simp add: ex_hello_length MAX_VALUE_def)
  ultimately show ?thesis
    by (simp add: from_file_miss ex_sha1_hello world_after_create_def created_blob_def
        new_blob_def generate_unique_path_def ONE_DAY_def text_type.simps ex_world_def
        ex_world1_def ex_hello_blob_def ex_hello_length)
qed

text \<open>
  The claim as stated fails for an input that does not fit the column: for
  2147483648 zero bytes and an empty table, \<open>storage.save\<close> is called once and then
  \<open>blob.save()\<close> fails, so there is one physical write and no row.
\<close>

theorem from_file_oversized_input_counterexample:
  "fileblob_table ex_world = [] \<and> saves ex_world = [] \<and>
   from_file ex_sha1 (ContentFile (replicate 2147483648 0)) ex_world
     = (Inl AssertionError,
        ex_world\<lparr>uuid_count := 1,
                 store := [''3/17/uuid0'' \<mapsto> replicate 2147483648 0],
                 saves := [''3/17/uuid0'']\<rparr>)"
proof -
  have "ex_sha1 (replicate 2147483648 0) \<notin> set (map blob_checksum (fileblob_table ex_world))"
    by (simp add: ex_world_def)
  moreover have "MAX_VALUE < length (replicate 2147483648 (0::byte))"
    by (simp add: MAX_VALUE_def)
  ultimately have "from_file ex_sha1 (ContentFile (replicate 2147483648 0)) ex_world
     = (Inl AssertionError,
        ex_world\<lparr>uuid_count := Suc (uuid_count ex_world),
          store := (store ex_world)(fst (generate_unique_path (clock ex_world) ex_world)
                     \<mapsto> replicate 2147483648 0),
          saves := saves ex_world @ [fst (generate_unique_path (clock ex_world) ex_world)]\<rparr>)"
    by (rule from_file_too_big)
  moreover have "fst (generate_unique_path (clock ex_world) ex_world) = ''3/17/uuid0''"
    by (simp add: generate_unique_path_def ONE_DAY_def text_type.simps ex_world_def)
  moreover have "uuid_count ex_world = 0" "store ex_world = Map.empty" "saves ex_world = []"
      "fileblob_table ex_world = []"
    by (simp_all add: ex_world_def)
  ultimately show ?thesis by simp
qed

theorem from_file_deduplicates_by_checksum_witness:
  "distinct (map blob_checksum (fileblob_table ex_world)) \<and>
   ex_sha1 ex_hello \<notin> set (map blob_checksum (fileblob_table ex_world)) \<and>
   length ex_hello \<le> MAX_VALUE \<and>
   from_file ex_sha1 (ContentFile ex_hello) ex_world = (Inr ex_hello_blob, ex_world1) \<and>
   fileblob_table ex_world1 = [ex_hello_blob] \<and> saves ex_world1 = [''3/17/uuid0''] \<and>
   store ex_world1 ''3/17/uuid0'' = Some ex_hello \<and>
   ex_hello_blob \<in> set (fileblob_table ex_world1) \<and>
   blob_checksum ex_hello_blob = ex_sha1 ex_hello \<and>
   from_file ex_sha1 (ContentFile ex_hello) ex_world1 = (Inr ex_hello_blob, ex_world1)"
proof -
  have d: "distinct (map blob_checksum (fileblob_table ex_world))"
    and m: "ex_sha1 ex_hello \<notin> set (map blob_checksum (fileblob_table ex_world))"
    and fits: "length ex_hello \<le> MAX_VALUE"
    by (simp_all add: ex_world_def ex_hello_length MAX_VALUE_def)
  have d1: "distinct (map blob_checksum (fileblob_table ex_world1))"
    and in1: "ex_hello_blob \<in> set (fileblob_table ex_world1)"
    and c1: "blob_checksum ex_hello_blob = ex_sha1 ex_hello"
    by (simp_all add: ex_world1_def ex_world_def ex_hello_blob_def ex_sha1_hello)
  have miss: "\<exists>blob w'. from_file ex_sha1 (ContentFile ex_hello) ex_world = (Inr blob, w') \<and>
      fileblob_table w' = fileblob_table ex_world @ [blob]"
    using from_file_deduplicates_by_checksum[OF d, of ex_sha1 ex_hello, THEN conjunct2] m fits
    by blast
  have hit: "from_file ex_sha1 (ContentFile ex_hello) ex_world1 = (Inr ex_hello_blob, ex_world1)"
    using from_file_deduplicates_by_checksum[OF d1, of ex_sha1 ex_hello, THEN conjunct1] in1 c1
    by blast
  have tabs: "fileblob_table ex_world1 = [ex_hello_blob]" "saves ex_world1 = [''3/17/uuid0'']"
      "store ex_world1 ''3/17/uuid0'' = Some ex_hello"
    by (simp_all add: ex_world1_def ex_world_def)
  show ?thesis using d m fits ex_from_file_hello tabs in1 c1 hit by (simp only: simp_thms)
qed

section \<open>\<open>File.putfile\<close>\<close>

text \<open>
  \<open>FileBlobIndex.objects.create(file=..., blob=..., offset=...)\<close>: the offset must
  be in range, and the table is \<open>unique_together\<close> on the three columns.
\<close>

definition create_index ::
  "nat \<Rightarrow> FileBlob \<Rightarrow> nat \<Rightarrow> world \<Rightarrow> (error + FileBlobIndex) \<times> world" where
  "create_index fid blob off w =
     (if out_of_range (Some off) then (Inl AssertionError, w)
      else if list_ex (\<lambda>i. idx_file i = fid \<and> blob_id (idx_blob i) = blob_id blob \<and>
                       idx_offset i = off) (fileblobindex_table w)
      then (Inl IntegrityError, w)
      else (Inr \<lparr>idx_id = next_index_id w, idx_file = fid, idx_blob = blob, idx_offset = off\<rparr>,
            w\<lparr>fileblobindex_table := fileblobindex_table w @
                 [\<lparr>idx_id = next_index_id w, idx_file = fid, idx_blob = blob,
                   idx_offset = off\<rparr>],
              next_index_id := Suc (next_index_id w)\<rparr>))"

text \<open>\<open>self.save()\<close> on a \<open>File\<close>: the size must be in range.\<close>

definition save_file :: "File \<Rightarrow> world \<Rightarrow> error + world" where
  "save_file f w =
     (if out_of_range (file_size f) then Inl AssertionError
      else Inr (w\<lparr>file_table := (file_table w)(file_id f \<mapsto> f)\<rparr>))"

text \<open>
  The loop of \<open>putfile\<close>: read \<open>blob_size\<close> bytes, stop when nothing comes, store
  the chunk as a blob, create the index entry at the running offset and advance
  the offset by the size recorded on the blob.
\<close>

function putfile_loop ::
  "(bytes \<Rightarrow> string) \<Rightarrow> nat \<Rightarrow> int \<Rightarrow> stream \<Rightarrow> FileBlobIndex list \<Rightarrow> nat \<Rightarrow> bytes \<Rightarrow> world
     \<Rightarrow> (error + FileBlobIndex list \<times> nat \<times> bytes) \<times> world" where
  "putfile_loop sha1 fid n fileobj results offset h w =
     (if fst (stream_read n fileobj) = [] then (Inr (results, offset, h), w)
      else
        (case from_file sha1 (ContentFile (fst (stream_read n fileobj))) w of
           (Inl e, w1) \<Rightarrow> (Inl e, w1)
         | (Inr blob, w1) \<Rightarrow>
             (case create_index fid blob offset w1 of
                (Inl e, w2) \<Rightarrow> (Inl e, w2)
              | (Inr idx, w2) \<Rightarrow>
                  (case blob_size blob of
                     None \<Rightarrow> (Inl TypeError, w2)
                   | Some s \<Rightarrow>
                       putfile_loop sha1 fid n (snd (stream_read n fileobj)) (results @ [idx])
                         (offset + s) (h @ fst (stream_read n fileobj)) w2))))"
  by pat_completeness auto
termination
  apply (relation "measure (\<lambda>(sha1, fid, n, fileobj, results, offset, h, w).
                      length (s_data fileobj) - s_pos fileobj)")
   apply simp
  apply (auto simp: stream_read_def Let_def split: if_splits)
  done

declare putfile_loop.simps [simp del]

definition putfile ::
  "(bytes \<Rightarrow> string) \<Rightarrow> File \<Rightarrow> stream \<Rightarrow> int \<Rightarrow> bool \<Rightarrow> world
     \<Rightarrow> (error + FileBlobIndex list) \<times> File \<times> world" where
  "putfile sha1 self fileobj blob_size_arg commit w =
     (case putfile_loop sha1 (file_id self) blob_size_arg fileobj [] 0 [] w of
        (Inl e, w') \<Rightarrow> (Inl e, self, w')
      | (Inr (results, offset, h), w') \<Rightarrow>
          if commit then
            (case save_file (self\<lparr>file_size := Some offset, file_checksum := Some (sha1 h)\<rparr>)
                    w' of
               Inl e \<Rightarrow>
                 (Inl e, self\<lparr>file_size := Some offset, file_checksum := Some (sha1 h)\<rparr>, w')
             | Inr w'' \<Rightarrow>
                 (Inr results,
                  self\<lparr>file_size := Some offset, file_checksum := Some (sha1 h)\<rparr>, w''))
          else
            (Inr results, self\<lparr>file_size := Some offset, file_checksum := Some (sha1 h)\<rparr>,
             w'))"

text \<open>
  The chunks a loop of \<open>read(n)\<close> calls sees, and the offsets that start at \<open>off\<close>
  and advance by the given sizes.
\<close>

function read_chunks :: "int \<Rightarrow> stream \<Rightarrow> bytes list" where
  "read_chunks n f =
     (if fst (stream_read n f) = [] then []
      else fst (stream_read n f) # read_chunks n (snd (stream_read n f)))"
  by pat_completeness auto
termination
  apply (relation "measure (\<lambda>(n, f). length (s_data f) - s_pos f)")
   apply simp
  apply (auto simp: stream_read_def Let_def split: if_splits)
  done

declare read_chunks.simps [simp del]

fun offsets_from :: "nat \<Rightarrow> nat list \<Rightarrow> nat list" where
  "offsets_from off [] = []"
| "offsets_from off (s # ss) = off # offsets_from (off + s) ss"

lemma read_chunks_Nil: "fst (stream_read n f) = [] \<Longrightarrow> read_chunks n f = []"
  by (subst read_chunks.simps) simp

lemma read_chunks_Cons:
  "fst (stream_read n f) \<noteq> [] \<Longrightarrow>
   read_chunks n f = fst (stream_read n f) # read_chunks n (snd (stream_read n f))"
  by (subst read_chunks.simps) simp

lemma read_chunks_nonempty: "c \<in> set (read_chunks n f) \<Longrightarrow> c \<noteq> []"
proof (induction n f rule: read_chunks.induct)
  case (1 n f)
  then show ?case
    by (cases "fst (stream_read n f) = []") (auto simp: read_chunks_Nil read_chunks_Cons)
qed

lemma stream_read_empty_nonzero:
  "n \<noteq> 0 \<Longrightarrow> fst (stream_read n f) = [] \<Longrightarrow> remaining f = []"
  by (auto simp: stream_read_fst split: if_splits)

lemma concat_read_chunks: "n \<noteq> 0 \<Longrightarrow> concat (read_chunks n f) = remaining f"
proof (induction n f rule: read_chunks.induct)
  case (1 n f)
  show ?case
  proof (cases "fst (stream_read n f) = []")
    case True
    then show ?thesis using "1.prems" by (simp add: read_chunks_Nil stream_read_empty_nonzero)
  next
    case False
    have "fst (stream_read n f) @ remaining (snd (stream_read n f)) = remaining f"
      by (metis stream_read_prefix stream_read_remaining append_take_drop_id)
    then show ?thesis using False "1.IH"[OF False "1.prems"] by (simp add: read_chunks_Cons)
  qed
qed

lemma offsets_from_ge: "x \<in> set (offsets_from off ss) \<Longrightarrow> off \<le> x"
proof (induction ss arbitrary: off)
  case Nil
  then show ?case by simp
next
  case (Cons s ss)
  from Cons.prems have "x = off \<or> x \<in> set (offsets_from (off + s) ss)" by simp
  then show ?case
  proof
    assume "x = off" then show ?thesis by simp
  next
    assume "x \<in> set (offsets_from (off + s) ss)"
    then have "off + s \<le> x" by (rule Cons.IH)
    then show ?thesis by simp
  qed
qed

lemma offsets_from_sorted:
  "list_all (\<lambda>s. 0 < s) ss \<Longrightarrow> sorted_wrt (<) (offsets_from off ss)"
proof (induction ss arbitrary: off)
  case Nil
  then show ?case by simp
next
  case (Cons s ss)
  have s: "0 < s" and rest: "list_all (\<lambda>s. 0 < s) ss" using Cons.prems by simp_all
  have "off < x" if "x \<in> set (offsets_from (off + s) ss)" for x
    using offsets_from_ge[OF that] s by simp
  then show ?case using Cons.IH[OF rest, of "off + s"] by simp
qed

lemma stream_read_length_pos:
  "0 < n \<Longrightarrow> length (fst (stream_read n f)) = min (nat n) (length (remaining f))"
  by (auto simp: stream_read_fst min_def)

lemma chunk_count_step:
  assumes "0 < (m::nat)" "0 < L"
  shows "(L + m - 1) div m = Suc ((L - min m L + m - 1) div m)"
proof -
  have e: "L + m - 1 = (L - 1) + m" using assms by linarith
  have "((L - 1) + m) div m = Suc ((L - 1) div m)"
    using assms(1) div_add_self2[of m "L - 1"] by simp
  then have a: "(L + m - 1) div m = Suc ((L - 1) div m)" by (subst e)
  have b: "(L - min m L + m - 1) div m = (L - 1) div m"
  proof (cases "m \<le> L")
    case True
    then have "L - min m L + m - 1 = L - 1" using assms by (simp add: min_def)
    then show ?thesis by (simp only:)
  next
    case False
    then have x: "L - min m L + m - 1 < m" and y: "L - 1 < m"
      using assms by (simp_all add: min_def)
    show ?thesis by (simp only: div_less[OF x] div_less[OF y])
  qed
  show ?thesis by (simp only: a b)
qed

lemma offsets_read_chunks:
  "0 < n \<Longrightarrow>
   offsets_from off (map length (read_chunks n f))
     = map (\<lambda>k. off + k * nat n) [0..<(length (remaining f) + nat n - 1) div nat n]"
proof (induction n f arbitrary: off rule: read_chunks.induct)
  case (1 n f)
  let ?m = "nat n" and ?L = "length (remaining f)"
  have m: "0 < ?m" using "1.prems" by simp
  show ?case
  proof (cases "fst (stream_read n f) = []")
    case True
    then have "remaining f = []" using "1.prems" by (intro stream_read_empty[of n]) simp_all
    then show ?thesis using True m by (simp add: read_chunks_Nil)
  next
    case False
    let ?f' = "snd (stream_read n f)"
    have len: "length (fst (stream_read n f)) = min ?m ?L"
      using "1.prems" by (rule stream_read_length_pos)
    have L: "0 < ?L" using False len by (cases "?L = 0") auto
    have rem': "length (remaining ?f') = ?L - min ?m ?L"
      by (simp add: stream_read_remaining len)
    let ?q = "(?L - min ?m ?L + ?m - 1) div ?m"
    have cnt: "(?L + ?m - 1) div ?m = Suc ?q" using m L by (rule chunk_count_step)
    have ih: "offsets_from (off + min ?m ?L) (map length (read_chunks n ?f'))
                = map (\<lambda>k. off + min ?m ?L + k * ?m) [0..<?q]"
      using "1.IH"[OF False "1.prems", of "off + min ?m ?L"] rem' by simp
    have shift: "map (\<lambda>k. off + min ?m ?L + k * ?m) [0..<?q] = map (\<lambda>k. off + Suc k * ?m) [0..<?q]"
    proof (cases "?m \<le> ?L")
      case True
      then show ?thesis by (simp add: min_def add.assoc)
    next
      case False
      then have "?L - min ?m ?L + ?m - 1 < ?m" using m by (simp add: min_def)
      then have "?q = 0" by simp
      then show ?thesis by simp
    qed
    have "[0..<Suc ?q] = 0 # map Suc [0..<?q]"
      by (simp add: upt_conv_Cons map_Suc_upt del: upt_Suc)
    then have mp: "map (\<lambda>k. off + k * ?m) [0..<Suc ?q] = off # map (\<lambda>k. off + Suc k * ?m) [0..<?q]"
      by (simp add: comp_def del: upt_Suc)
    have "offsets_from off (map length (read_chunks n f))
            = off # offsets_from (off + min ?m ?L) (map length (read_chunks n ?f'))"
      using False len by (simp add: read_chunks_Cons)
    also have "\<dots> = off # map (\<lambda>k. off + Suc k * ?m) [0..<?q]"
      by (simp only: ih shift)
    also have "\<dots> = map (\<lambda>k. off + k * ?m) [0..<Suc ?q]"
      by (simp only: mp)
    also have "\<dots> = map (\<lambda>k. off + k * ?m) [0..<(?L + ?m - 1) div ?m]"
      by (simp only: cnt)
    finally show ?thesis .
  qed
qed

lemma from_file_chunk:
  assumes d: "distinct (map blob_checksum (fileblob_table w))"
    and sz: "\<forall>b\<in>set (fileblob_table w). blob_checksum b = sha1 c \<longrightarrow> blob_size b = Some (length c)"
    and fits: "length c \<le> MAX_VALUE"
  shows "\<exists>blob w1. from_file sha1 (ContentFile c) w = (Inr blob, w1) \<and>
           blob_size blob = Some (length c) \<and> blob_checksum blob = sha1 c \<and>
           distinct (map blob_checksum (fileblob_table w1)) \<and>
           blob \<in> set (fileblob_table w1) \<and>
           set (fileblob_table w1) \<subseteq> insert blob (set (fileblob_table w)) \<and>
           fileblobindex_table w1 = fileblobindex_table w \<and>
           file_table w1 = file_table w \<and> next_index_id w1 = next_index_id w"
proof (cases "sha1 c \<in> set (map blob_checksum (fileblob_table w))")
  case True
  then obtain b where b: "b \<in> set (fileblob_table w)" "blob_checksum b = sha1 c" by auto
  then have "from_file sha1 (ContentFile c) w = (Inr b, w)"
    using from_file_hit[OF d, of b sha1 "ContentFile c"] by simp
  then show ?thesis using b sz d by auto
next
  case False
  have "from_file sha1 (ContentFile c) w
          = (Inr (created_blob sha1 c w), world_after_create sha1 c w)"
    using False fits by (rule from_file_miss)
  moreover have "distinct (map blob_checksum (fileblob_table (world_after_create sha1 c w)))"
    using d False by (rule from_file_keeps_distinct)
  ultimately show ?thesis
    by (auto simp: world_after_create_def created_blob_def new_blob_def)
qed

text \<open>
  What the theorem about \<open>putfile\<close> asks of the tables. \<open>index_free\<close>: the file has
  no index row at one of the offsets to be written (such a row could collide
  under \<open>unique_together\<close>). \<open>sizes_recorded\<close> and \<open>same_digest_same_length\<close>: the
  Blob invariant for the chunks of the input, that a digest determines the
  content and so its length.
\<close>

definition index_free :: "nat \<Rightarrow> nat list \<Rightarrow> world \<Rightarrow> bool" where
  "index_free fid offs w =
     list_all (\<lambda>i. idx_file i = fid \<longrightarrow> idx_offset i \<notin> set offs) (fileblobindex_table w)"

lemma create_index_free:
  assumes "index_free fid offs w" "off \<in> set offs" "off \<le> MAX_VALUE"
  shows "create_index fid blob off w
           = (Inr \<lparr>idx_id = next_index_id w, idx_file = fid, idx_blob = blob, idx_offset = off\<rparr>,
              w\<lparr>fileblobindex_table := fileblobindex_table w @
                   [\<lparr>idx_id = next_index_id w, idx_file = fid, idx_blob = blob,
                     idx_offset = off\<rparr>],
                next_index_id := Suc (next_index_id w)\<rparr>)"
proof -
  have "\<not> list_ex (\<lambda>i. idx_file i = fid \<and> blob_id (idx_blob i) = blob_id blob \<and>
                       idx_offset i = off) (fileblobindex_table w)"
    using assms(1,2) by (auto simp: index_free_def list_all_iff list_ex_iff)
  then show ?thesis using assms(3) by (simp add: create_index_def out_of_range_def)
qed



definition sizes_recorded :: "(bytes \<Rightarrow> string) \<Rightarrow> bytes list \<Rightarrow> world \<Rightarrow> bool" where
  "sizes_recorded sha1 cs w =
     list_all (\<lambda>b. list_all (\<lambda>c. blob_checksum b = sha1 c \<longrightarrow> blob_size b = Some (length c)) cs)
       (fileblob_table w)"

definition same_digest_same_length :: "(bytes \<Rightarrow> string) \<Rightarrow> bytes list \<Rightarrow> bool" where
  "same_digest_same_length sha1 cs =
     list_all (\<lambda>c1. list_all (\<lambda>c2. sha1 c1 = sha1 c2 \<longrightarrow> length c1 = length c2) cs) cs"

definition putfile_pre ::
  "(bytes \<Rightarrow> string) \<Rightarrow> nat \<Rightarrow> bytes list \<Rightarrow> nat \<Rightarrow> world \<Rightarrow> bool" where
  "putfile_pre sha1 fid cs off w =
     (distinct (map blob_checksum (fileblob_table w)) \<and> sizes_recorded sha1 cs w \<and>
      same_digest_same_length sha1 cs \<and>
      index_free fid (offsets_from off (map length cs)) w)"

lemma putfile_loop_ok:
  assumes "putfile_pre sha1 fid (read_chunks n f) off w"
    and "off + length (concat (read_chunks n f)) \<le> MAX_VALUE"
  shows "\<exists>res w'. putfile_loop sha1 fid n f results off h w
             = (Inr (results @ res, off + length (concat (read_chunks n f)),
                     h @ concat (read_chunks n f)), w') \<and>
           map idx_offset res = offsets_from off (map length (read_chunks n f)) \<and>
           map (\<lambda>i. blob_size (idx_blob i)) res = map (\<lambda>c. Some (length c)) (read_chunks n f) \<and>
           map (\<lambda>i. blob_checksum (idx_blob i)) res = map sha1 (read_chunks n f) \<and>
           list_all (\<lambda>i. idx_file i = fid) res \<and>
           fileblobindex_table w' = fileblobindex_table w @ res \<and>
           file_table w' = file_table w"
  using assms
proof (induction sha1 fid n f results off h w rule: putfile_loop.induct)
  case (1 sha1 fid n f results off h w)
  let ?c = "fst (stream_read n f)" and ?f' = "snd (stream_read n f)"
  show ?case
  proof (cases "?c = []")
    case True
    then show ?thesis
      by (subst putfile_loop.simps) (simp add: read_chunks_Nil)
  next
    case False
    let ?cs' = "read_chunks n ?f'"
    have cs: "read_chunks n f = ?c # ?cs'" using False by (rule read_chunks_Cons)
    have pre: "distinct (map blob_checksum (fileblob_table w))"
        "sizes_recorded sha1 (?c # ?cs') w" "same_digest_same_length sha1 (?c # ?cs')"
        "index_free fid (off # offsets_from (off + length ?c) (map length ?cs')) w"
      using "1.prems"(1) cs by (simp_all add: putfile_pre_def)
    have bound: "off + length ?c + length (concat ?cs') \<le> MAX_VALUE"
      using "1.prems"(2) cs by simp
    then have fits: "length ?c \<le> MAX_VALUE" and off_ok: "off \<le> MAX_VALUE" by simp_all
    have szc: "\<forall>b\<in>set (fileblob_table w). blob_checksum b = sha1 ?c \<longrightarrow> blob_size b = Some (length ?c)"
      using pre(2) by (auto simp: sizes_recorded_def list_all_iff)
    obtain blob w1 where b: "from_file sha1 (ContentFile ?c) w = (Inr blob, w1)"
        "blob_size blob = Some (length ?c)" "blob_checksum blob = sha1 ?c"
        "distinct (map blob_checksum (fileblob_table w1))"
        "set (fileblob_table w1) \<subseteq> insert blob (set (fileblob_table w))"
        "fileblobindex_table w1 = fileblobindex_table w"
        "file_table w1 = file_table w" "next_index_id w1 = next_index_id w"
      using from_file_chunk[of w sha1 ?c, OF pre(1) szc fits]
      by (elim exE conjE) (rule that; assumption)
    let ?idx = "\<lparr>idx_id = next_index_id w1, idx_file = fid, idx_blob = blob, idx_offset = off\<rparr>"
    let ?w2 = "w1\<lparr>fileblobindex_table := fileblobindex_table w1 @ [?idx],
                  next_index_id := Suc (next_index_id w1)\<rparr>"
    have free1: "index_free fid (off # offsets_from (off + length ?c) (map length ?cs')) w1"
      using pre(4) b(6) by (simp add: index_free_def)
    have ci: "create_index fid blob off w1 = (Inr ?idx, ?w2)"
      using free1 _ off_ok by (rule create_index_free) simp
    have pos: "0 < length ?c" using False by simp
    have pre2: "putfile_pre sha1 fid ?cs' (off + length ?c) ?w2"
    proof -
      have sr: "\<forall>x\<in>set (fileblob_table w). \<forall>c\<in>set (?c # ?cs').
                  blob_checksum x = sha1 c \<longrightarrow> blob_size x = Some (length c)"
        using pre(2) by (simp only: sizes_recorded_def list_all_iff)
      have old_rows: "blob_size x = Some (length c)"
        if "x \<in> set (fileblob_table w)" "c \<in> set ?cs'" "blob_checksum x = sha1 c" for x c
        using sr[rule_format, of x c] that by (meson list.set_intros(2))
      have sd: "\<forall>c1\<in>set (?c # ?cs'). \<forall>c2\<in>set (?c # ?cs').
                  sha1 c1 = sha1 c2 \<longrightarrow> length c1 = length c2"
        using pre(3) by (simp only: same_digest_same_length_def list_all_iff)
      have same_len: "length ?c = length c" if "c \<in> set ?cs'" "sha1 ?c = sha1 c" for c
        using sd[rule_format, of ?c c] that by (meson list.set_intros)
      have "blob_size x = Some (length c)"
        if x: "x \<in> set (fileblob_table w1)" and c: "c \<in> set ?cs'"
          and e: "blob_checksum x = sha1 c" for x c
      proof (cases "x = blob")
        case True
        have "sha1 ?c = sha1 c" using e b(3) True by metis
        then have "length ?c = length c" by (rule same_len[OF c])
        then show ?thesis using b(2) True by metis
      next
        case False
        then have "x \<in> set (fileblob_table w)" using x b(5) by blast
        then show ?thesis using c e by (rule old_rows)
      qed
      then have "sizes_recorded sha1 ?cs' ?w2"
        unfolding sizes_recorded_def list_all_iff by simp
      moreover have "\<forall>c1\<in>set ?cs'. \<forall>c2\<in>set ?cs'. sha1 c1 = sha1 c2 \<longrightarrow> length c1 = length c2"
        using sd by (meson list.set_intros(2))
      then have "same_digest_same_length sha1 ?cs'"
        by (simp only: same_digest_same_length_def list_all_iff)
      moreover have "index_free fid (offsets_from (off + length ?c) (map length ?cs')) ?w2"
      proof -
        have "off \<notin> set (offsets_from (off + length ?c) (map length ?cs'))"
          using offsets_from_ge[of off "off + length ?c" "map length ?cs'"] pos by auto
        moreover have "idx_offset i \<notin> set (offsets_from (off + length ?c) (map length ?cs'))"
          if "i \<in> set (fileblobindex_table w1)" "idx_file i = fid" for i
          using free1 that by (simp add: index_free_def list_all_iff)
        ultimately show ?thesis by (simp add: index_free_def list_all_iff)
      qed
      ultimately show ?thesis using b(4) by (simp add: putfile_pre_def)
    qed
    have step: "putfile_loop sha1 fid n f results off h w
                 = putfile_loop sha1 fid n ?f' (results @ [?idx]) (off + length ?c) (h @ ?c) ?w2"
      using False b(1,2) ci by (subst putfile_loop.simps) simp
    from "1.IH"[OF False b(1)[symmetric] refl ci[symmetric] refl b(2) pre2 bound]
    obtain res w' where r: "putfile_loop sha1 fid n ?f' (results @ [?idx]) (off + length ?c) (h @ ?c) ?w2
             = (Inr ((results @ [?idx]) @ res, off + length ?c + length (concat ?cs'),
                     (h @ ?c) @ concat ?cs'), w')"
        "map idx_offset res = offsets_from (off + length ?c) (map length ?cs')"
        "map (\<lambda>i. blob_size (idx_blob i)) res = map (\<lambda>c. Some (length c)) ?cs'"
        "map (\<lambda>i. blob_checksum (idx_blob i)) res = map sha1 ?cs'"
        "list_all (\<lambda>i. idx_file i = fid) res"
        "fileblobindex_table w' = fileblobindex_table ?w2 @ res"
        "file_table w' = file_table ?w2"
      by (elim exE conjE) (rule that; assumption)
    show ?thesis
      apply (rule exI[of _ "?idx # res"], rule exI[of _ w'])
      using step r b(2,3,6,7) by (simp add: cs)
  qed
qed

text \<open>
  Claim C2, for a chunk size other than 0 and an input of at most \<open>MAX_VALUE\<close>
  bytes. The table is assumed to satisfy its \<open>unique\<close> constraint and the Blob
  invariant for the chunks of the input (a row with the digest of a chunk
  records the length of that chunk, and two chunks with one digest have one
  length), and the file to have no index row at an offset to be written
  (\<open>putfile_pre\<close>). Then \<open>putfile\<close> succeeds; it creates one index entry per chunk
  read, the first at offset 0 and each next one at the previous offset plus the
  size of the previous blob, so the offsets increase strictly; it sets
  \<open>file.size\<close> to the number of bytes of the input and \<open>file.checksum\<close> to the
  SHA-1 of the whole input, and saves the file when \<open>commit\<close> is set. For a
  positive chunk size \<open>n\<close> the offsets are \<open>0, n, 2n, ...\<close>, one per started chunk.
\<close>

theorem putfile_indexes_chunks_at_cumulative_offsets:
  assumes "n \<noteq> 0" and "length (remaining fileobj) \<le> MAX_VALUE"
    and "putfile_pre sha1 (file_id self) (read_chunks n fileobj) 0 w"
  shows "\<exists>results w'.
           putfile sha1 self fileobj n commit w
             = (Inr results,
                self\<lparr>file_size := Some (length (remaining fileobj)),
                     file_checksum := Some (sha1 (remaining fileobj))\<rparr>, w') \<and>
           concat (read_chunks n fileobj) = remaining fileobj \<and>
           map idx_offset results = offsets_from 0 (map length (read_chunks n fileobj)) \<and>
           map (\<lambda>i. blob_size (idx_blob i)) results
             = map (\<lambda>c. Some (length c)) (read_chunks n fileobj) \<and>
           sorted_wrt (<) (map idx_offset results) \<and>
           list_all (\<lambda>i. idx_file i = file_id self) results \<and>
           fileblobindex_table w' = fileblobindex_table w @ results \<and>
           file_table w'
             = (if commit
                then (file_table w)(file_id self \<mapsto>
                       self\<lparr>file_size := Some (length (remaining fileobj)),
                            file_checksum := Some (sha1 (remaining fileobj))\<rparr>)
                else file_table w) \<and>
           (0 < n \<longrightarrow>
              map idx_offset results
                = map (\<lambda>k. k * nat n) [0..<(length (remaining fileobj) + nat n - 1) div nat n])"
proof -
  let ?cs = "read_chunks n fileobj"
  have cc: "concat ?cs = remaining fileobj" using assms(1) by (rule concat_read_chunks)
  have bnd: "0 + length (concat ?cs) \<le> MAX_VALUE" using assms(2) cc by simp
  obtain res w1 where r:
      "putfile_loop sha1 (file_id self) n fileobj [] 0 [] w
         = (Inr ([] @ res, 0 + length (concat ?cs), [] @ concat ?cs), w1)"
      "map idx_offset res = offsets_from 0 (map length ?cs)"
      "map (\<lambda>i. blob_size (idx_blob i)) res = map (\<lambda>c. Some (length c)) ?cs"
      "list_all (\<lambda>i. idx_file i = file_id self) res"
      "fileblobindex_table w1 = fileblobindex_table w @ res"
      "file_table w1 = file_table w"
    using putfile_loop_ok[OF assms(3) bnd, of "[]" "[]"]
    by (elim exE conjE) (rule that; assumption)
  let ?self = "self\<lparr>file_size := Some (length (remaining fileobj)),
                     file_checksum := Some (sha1 (remaining fileobj))\<rparr>"
  let ?w' = "if commit then w1\<lparr>file_table := (file_table w1)(file_id self \<mapsto> ?self)\<rparr> else w1"
  have pf: "putfile sha1 self fileobj n commit w = (Inr res, ?self, ?w')"
    using r(1) cc assms(2) by (simp add: putfile_def save_file_def out_of_range_def)
  have pos: "list_all (\<lambda>s. 0 < s) (map length ?cs)"
    using read_chunks_nonempty[of _ n fileobj] by (auto simp: list_all_iff)
  have srt: "sorted_wrt (<) (map idx_offset res)"
    using offsets_from_sorted[OF pos, of 0] r(2) by simp
  have tab: "fileblobindex_table ?w' = fileblobindex_table w @ res"
    using r(5) by simp
  have ft: "file_table ?w'
             = (if commit then (file_table w)(file_id self \<mapsto> ?self) else file_table w)"
    using r(6) by simp
  have closed_form: "map idx_offset res
          = map (\<lambda>k. k * nat n) [0..<(length (remaining fileobj) + nat n - 1) div nat n]"
    if "0 < n"
    using offsets_read_chunks[OF that, of 0 fileobj] r(2) by simp
  have cf: "0 < n \<longrightarrow> map idx_offset res
          = map (\<lambda>k. k * nat n) [0..<(length (remaining fileobj) + nat n - 1) div nat n]"
    using closed_form by blast
  show ?thesis
    apply (rule exI[of _ res], rule exI[of _ ?w'])
    apply (intro conjI)
            apply (fact pf cc r(2) r(3) srt r(4) tab ft cf)+
    done
qed

text \<open>
  With a chunk size of 0 the first \<open>read(0)\<close> returns nothing and the loop
  ends at once: the five bytes of the input give no index entry, \<open>size\<close> 0 and
  the SHA-1 of the empty string.
\<close>

definition ex_file :: File where
  "ex_file = \<lparr>file_id = 1, file_name = ''example.bin'', file_type = ''release.file'',
               file_size = None, file_checksum = None\<rparr>"

theorem putfile_chunk_size_zero_counterexample:
  "length ex_hello = 5 \<and>
   putfile ex_sha1 ex_file (ContentFile ex_hello) 0 True ex_world
     = (Inr [],
        ex_file\<lparr>file_size := Some 0, file_checksum := Some (ex_sha1 [])\<rparr>,
        ex_world\<lparr>file_table :=
          [file_id ex_file \<mapsto> ex_file\<lparr>file_size := Some 0, file_checksum := Some (ex_sha1 [])\<rparr>]\<rparr>)"
  by (simp add: ex_hello_length putfile_def putfile_loop.simps stream_read_def save_file_def
      out_of_range_def ex_world_def)

lemma ex_sha1_same_length: "same_digest_same_length ex_sha1 cs"
proof -
  have "length c1 = length c2" if "ex_sha1 c1 = ex_sha1 c2" for c1 c2
    using arg_cong[OF that, of length] by (simp add: ex_sha1_def)
  then show ?thesis unfolding same_digest_same_length_def list_all_iff by blast
qed

lemma ex_world_putfile_pre: "putfile_pre ex_sha1 fid cs off ex_world"
  by (simp add: putfile_pre_def ex_sha1_same_length sizes_recorded_def index_free_def
      ex_world_def)

theorem putfile_indexes_chunks_at_cumulative_offsets_witness:
  "(1048576::int) \<noteq> 0 \<and>
   length (remaining (ContentFile (replicate 2621440 (0::byte)))) \<le> MAX_VALUE \<and>
   putfile_pre ex_sha1 (file_id ex_file)
     (read_chunks 1048576 (ContentFile (replicate 2621440 0))) 0 ex_world \<and>
   (\<exists>results w'.
      putfile ex_sha1 ex_file (ContentFile (replicate 2621440 0)) 1048576 True ex_world
        = (Inr results,
           ex_file\<lparr>file_size := Some 2621440,
                   file_checksum := Some (ex_sha1 (replicate 2621440 0))\<rparr>, w') \<and>
      map idx_offset results = [0, 1048576, 2097152] \<and>
      fileblobindex_table w' = results)"
proof -
  have n: "(1048576::int) \<noteq> 0" by simp
  note pre = ex_world_putfile_pre[of "file_id ex_file"
      "read_chunks 1048576 (ContentFile (replicate 2621440 0))"]
  have fits: "length (remaining (ContentFile (replicate 2621440 (0::byte)))) \<le> MAX_VALUE"
    by (simp add: MAX_VALUE_def)
  from putfile_indexes_chunks_at_cumulative_offsets[OF n fits pre, of True]
  obtain results w' where
    r: "putfile ex_sha1 ex_file (ContentFile (replicate 2621440 0)) 1048576 True ex_world
        = (Inr results,
           ex_file\<lparr>file_size := Some (length (remaining (ContentFile (replicate 2621440 (0::byte))))),
                   file_checksum := Some (ex_sha1 (remaining (ContentFile (replicate 2621440 0))))\<rparr>, w')"
      "fileblobindex_table w' = fileblobindex_table ex_world @ results"
      "(0::int) < 1048576 \<longrightarrow>
              map idx_offset results
                = map (\<lambda>k. k * nat 1048576)
                    [0..<(length (remaining (ContentFile (replicate 2621440 (0::byte))))
                          + nat 1048576 - 1) div nat 1048576]"
    by (elim exE conjE) (rule that; assumption)
  have "[0..<(3::nat)] = [0, 1, 2]" by (simp add: upt_conv_Cons)
  then have "map idx_offset results = [0, 1048576, 2097152]"
    using r(3) by simp
  moreover have "fileblobindex_table w' = results"
    using r(2) by (simp add: ex_world_def)
  ultimately show ?thesis using n fits pre r(1) by auto
qed

section \<open>Reading a stored file\<close>

text \<open>
  \<open>File._get_chunked_blob\<close>: the index rows of the file, ordered by offset, each
  with its blob, wrapped in a reader.
\<close>

definition get_chunked_blob :: "File \<Rightarrow> bool \<Rightarrow> world \<Rightarrow> error + reader" where
  "get_chunked_blob self prefetch_flag w =
     ChunkedFileBlobIndexWrapper (store w)
       (sort_key idx_offset (filter (\<lambda>i. idx_file i = file_id self) (fileblobindex_table w)))
       prefetch_flag"

definition ex_empty_file :: File where
  "ex_empty_file = ex_file\<lparr>file_size := Some 0, file_checksum := Some (ex_sha1 [])\<rparr>"

definition ex_world_empty_file :: world where
  "ex_world_empty_file = ex_world\<lparr>file_table := [file_id ex_file \<mapsto> ex_empty_file]\<rparr>"

text \<open>
  Claim C3 at a file without blobs. \<open>putfile\<close> of an empty input stores a file of
  size 0 with no index row. Its index list is well indexed and the
  concatenation of its blobs is the empty string, but the streaming reader of
  this file cannot be constructed: \<open>open\<close> seeks to 0 and \<open>seek\<close> raises
  \<open>ValueError('Cannot seek to pos')\<close>, where the claim asks for a read that
  returns no bytes.
\<close>

theorem streaming_reader_of_empty_file_fails:
  "putfile ex_sha1 ex_file (ContentFile []) DEFAULT_BLOB_SIZE True ex_world
     = (Inr [], ex_empty_file, ex_world_empty_file) \<and>
   filter (\<lambda>i. idx_file i = file_id ex_empty_file) (fileblobindex_table ex_world_empty_file) = [] \<and>
   well_indexed (store ex_world_empty_file) [] \<and>
   whole (store ex_world_empty_file) [] = [] \<and>
   get_chunked_blob ex_empty_file False ex_world_empty_file
     = Inl (ValueError ''Cannot seek to pos'')"
  by (simp add: putfile_def putfile_loop.simps stream_read_def save_file_def out_of_range_def
      ContentFile_def DEFAULT_BLOB_SIZE_def ex_empty_file_def ex_world_empty_file_def
      ex_world_def ex_file_def well_indexed_def get_chunked_blob_def
      ChunkedFileBlobIndexWrapper_def reader_open_def seek_def)

text \<open>
  Claim C9 at the same file. In prefetch mode the reader of the empty file is
  constructed (the size is 0 and \<open>_prefetch\<close> installs an empty temporary file)
  and reading it to the end gives the empty string; in streaming mode the
  constructor raises, so the two modes do not read the same bytes.
\<close>

theorem prefetch_and_streaming_differ_on_empty_file:
  "(case get_chunked_blob ex_empty_file True ex_world_empty_file of
      Inl e \<Rightarrow> False
    | Inr r \<Rightarrow> map_sum id fst (read (store ex_world_empty_file) (- 1) r) = Inr []) \<and>
   get_chunked_blob ex_empty_file False ex_world_empty_file
     = Inl (ValueError ''Cannot seek to pos'')"
  by (simp add: ex_empty_file_def ex_world_empty_file_def ex_world_def ex_file_def
      get_chunked_blob_def ChunkedFileBlobIndexWrapper_def reader_open_def seek_def
      prefetch_def reader_size_def stream_seek_def read_def stream_read_def)

section \<open>\<open>File.assemble_from_file_blob_ids\<close>\<close>

text \<open>
  \<open>file_blob_ids.index(x)\<close>, the position of the first occurrence; Python raises
  \<open>ValueError\<close> when there is none.
\<close>

fun index_of :: "nat list \<Rightarrow> nat \<Rightarrow> nat option" where
  "index_of [] x = None"
| "index_of (y # ys) x = (if y = x then Some 0 else map_option Suc (index_of ys x))"

text \<open>
  \<open>FileBlob.objects.filter(id__in=file_blob_ids)\<close>, then \<open>sorted\<close> (a stable sort)
  by the position of the blob's id in the caller's list.
\<close>

definition sorted_file_blobs :: "nat list \<Rightarrow> world \<Rightarrow> error + FileBlob list" where
  "sorted_file_blobs file_blob_ids w =
     (let file_blobs = filter (\<lambda>b. blob_id b \<in> set file_blob_ids) (fileblob_table w)
      in if list_all (\<lambda>b. index_of file_blob_ids (blob_id b) \<noteq> None) file_blobs
         then Inr (sort_key (\<lambda>b. the (index_of file_blob_ids (blob_id b))) file_blobs)
         else Inl (ValueError ''is not in list''))"

text \<open>
  The loop over the sorted blobs: create the index row at the running offset,
  feed every chunk of the blob (\<open>chunks()\<close> reads 64 KiB at a time from the
  start) to the hash and to the temporary file, advance the offset by the
  recorded size.
\<close>

fun assemble_loop ::
  "nat \<Rightarrow> FileBlob list \<Rightarrow> nat \<Rightarrow> bytes \<Rightarrow> bytes \<Rightarrow> world
     \<Rightarrow> (error + nat \<times> bytes \<times> bytes) \<times> world" where
  "assemble_loop fid [] offset h tf w = (Inr (offset, h, tf), w)"
| "assemble_loop fid (blob # rest) offset h tf w =
     (case create_index fid blob offset w of
        (Inl e, w1) \<Rightarrow> (Inl e, w1)
      | (Inr idx, w1) \<Rightarrow>
          (case getfile (store w1) blob of
             Inl e \<Rightarrow> (Inl e, w1)
           | Inr f \<Rightarrow>
               (case blob_size blob of
                  None \<Rightarrow> (Inl TypeError, w1)
                | Some s \<Rightarrow>
                    assemble_loop fid rest (offset + s)
                      (fold (\<lambda>chunk acc. acc @ chunk) (read_chunks 65536 f) h)
                      (fold (\<lambda>chunk acc. acc @ chunk) (read_chunks 65536 f) tf) w1)))"

text \<open>
  \<open>transaction.atomic()\<close>: when the block raises, the tables are as before the
  block. The storage, the key sequences and the objects in memory (here the
  second component of the block's result) are not part of the transaction.
\<close>

definition rollback :: "world \<Rightarrow> world \<Rightarrow> world" where
  "rollback w w' =
     w'\<lparr>fileblob_table := fileblob_table w, fileblobindex_table := fileblobindex_table w,
        fileblobowner_table := fileblobowner_table w, file_table := file_table w\<rparr>"

definition atomic ::
  "(world \<Rightarrow> (error + 'a) \<times> 'm \<times> world) \<Rightarrow> world \<Rightarrow> (error + 'a) \<times> 'm \<times> world" where
  "atomic body w =
     (case body w of
        (Inl e, m, w') \<Rightarrow> (Inl e, m, rollback w w')
      | (Inr v, m, w') \<Rightarrow> (Inr v, m, w'))"

definition assemble_block ::
  "(bytes \<Rightarrow> string) \<Rightarrow> File \<Rightarrow> nat list \<Rightarrow> string \<Rightarrow> world
     \<Rightarrow> (error + nat \<times> bytes) \<times> File \<times> world" where
  "assemble_block sha1 self file_blob_ids checksum w =
     (case sorted_file_blobs file_blob_ids w of
        Inl e \<Rightarrow> (Inl e, self, w)
      | Inr file_blobs \<Rightarrow>
          (case assemble_loop (file_id self) file_blobs 0 [] [] w of
             (Inl e, w1) \<Rightarrow> (Inl e, self, w1)
           | (Inr (offset, h, tf), w1) \<Rightarrow>
               if checksum \<noteq> sha1 h
               then (Inl (AssembleChecksumMismatch ''Checksum mismatch''),
                     self\<lparr>file_size := Some offset, file_checksum := Some (sha1 h)\<rparr>, w1)
               else (Inr (offset, tf),
                     self\<lparr>file_size := Some offset, file_checksum := Some (sha1 h)\<rparr>, w1)))"

definition assemble_from_file_blob_ids ::
  "(bytes \<Rightarrow> string) \<Rightarrow> File \<Rightarrow> nat list \<Rightarrow> string \<Rightarrow> bool \<Rightarrow> world
     \<Rightarrow> (error + stream) \<times> File \<times> world" where
  "assemble_from_file_blob_ids sha1 self file_blob_ids checksum commit w =
     (case atomic (assemble_block sha1 self file_blob_ids checksum) w of
        (Inl e, self', w') \<Rightarrow> (Inl e, self', w')
      | (Inr (offset, tf), self', w') \<Rightarrow>
          if commit then
            (case save_file self' w' of
               Inl e \<Rightarrow> (Inl e, self', w')
             | Inr w'' \<Rightarrow> (Inr \<lparr>s_data = tf, s_pos = 0\<rparr>, self', w''))
          else (Inr \<lparr>s_data = tf, s_pos = 0\<rparr>, self', w'))"

lemma fold_append_concat: "fold (\<lambda>chunk acc. acc @ chunk) cs h = h @ concat cs"
  by (induction cs arbitrary: h) simp_all

lemma getfile_bytes: "getfile st b = Inr f \<Longrightarrow> s_pos f = 0 \<and> s_data f = blob_bytes st b"
  by (auto simp: getfile_def blob_bytes_def split: option.splits if_splits)

lemma chunks_of_blob:
  "getfile st b = Inr f \<Longrightarrow> concat (read_chunks 65536 f) = blob_bytes st b"
  using getfile_bytes[of st b f] concat_read_chunks[of 65536 f]
  by (simp add: remaining_def)

lemma create_index_Inr:
  "create_index fid blob off w = (Inr idx, w1) \<Longrightarrow>
   idx = \<lparr>idx_id = next_index_id w, idx_file = fid, idx_blob = blob, idx_offset = off\<rparr> \<and>
   w1 = w\<lparr>fileblobindex_table := fileblobindex_table w @ [idx],
          next_index_id := Suc (next_index_id w)\<rparr>"
  by (auto simp: create_index_def split: if_splits)

lemma assemble_loop_success:
  "assemble_loop fid blobs off h tf w = (Inr (off', h', tf'), w') \<Longrightarrow>
   \<exists>rows. fileblobindex_table w' = fileblobindex_table w @ rows \<and>
     map idx_blob rows = blobs \<and> list_all (\<lambda>i. idx_file i = fid) rows \<and>
     list_all (\<lambda>b. blob_size b \<noteq> None) blobs \<and>
     map idx_offset rows = offsets_from off (map (\<lambda>b. the (blob_size b)) blobs) \<and>
     off' = off + sum_list (map (\<lambda>b. the (blob_size b)) blobs) \<and>
     h' = h @ concat (map (blob_bytes (store w)) blobs) \<and>
     tf' = tf @ concat (map (blob_bytes (store w)) blobs) \<and>
     store w' = store w \<and> file_table w' = file_table w \<and>
     fileblob_table w' = fileblob_table w \<and> saves w' = saves w"
proof (induction blobs arbitrary: off h tf w)
  case Nil
  then show ?case by simp
next
  case (Cons b rest)
  obtain r1 w1 where ci: "create_index fid b off w = (r1, w1)" by (cases "create_index fid b off w")
  obtain idx where r1: "r1 = Inr idx"
    using Cons.prems ci by (cases r1) auto
  note cr = create_index_Inr[OF ci[unfolded r1]]
  have st1: "store w1 = store w" "file_table w1 = file_table w"
      "fileblob_table w1 = fileblob_table w" "saves w1 = saves w"
      "fileblobindex_table w1 = fileblobindex_table w @ [idx]"
    using cr by simp_all
  obtain f where gf: "getfile (store w1) b = Inr f"
    using Cons.prems ci r1 by (cases "getfile (store w1) b") auto
  obtain s where sz: "blob_size b = Some s"
    using Cons.prems ci r1 gf by (cases "blob_size b") auto
  have bytes: "concat (read_chunks 65536 f) = blob_bytes (store w) b"
    using chunks_of_blob[OF gf] st1(1) by simp
  have rec: "assemble_loop fid rest (off + s) (h @ blob_bytes (store w) b)
               (tf @ blob_bytes (store w) b) w1 = (Inr (off', h', tf'), w')"
    using Cons.prems ci r1 gf sz bytes by (simp add: fold_append_concat)
  from Cons.IH[OF rec] obtain rows where rows:
      "fileblobindex_table w' = fileblobindex_table w1 @ rows"
      "map idx_blob rows = rest" "list_all (\<lambda>i. idx_file i = fid) rows"
      "list_all (\<lambda>b. blob_size b \<noteq> None) rest"
      "map idx_offset rows = offsets_from (off + s) (map (\<lambda>b. the (blob_size b)) rest)"
      "off' = off + s + sum_list (map (\<lambda>b. the (blob_size b)) rest)"
      "h' = (h @ blob_bytes (store w) b) @ concat (map (blob_bytes (store w1)) rest)"
      "tf' = (tf @ blob_bytes (store w) b) @ concat (map (blob_bytes (store w1)) rest)"
      "store w' = store w1" "file_table w' = file_table w1"
      "fileblob_table w' = fileblob_table w1" "saves w' = saves w1"
    by (elim exE conjE) (rule that; assumption)
  show ?case
    apply (rule exI[of _ "idx # rows"])
    using rows st1 sz cr by simp
qed

lemma index_of_None: "index_of ids x = None \<longleftrightarrow> x \<notin> set ids"
  by (induction ids) auto



definition loaded_blobs :: "nat list \<Rightarrow> world \<Rightarrow> FileBlob list" where
  "loaded_blobs file_blob_ids w =
     sort_key (\<lambda>b. the (index_of file_blob_ids (blob_id b)))
       (filter (\<lambda>b. blob_id b \<in> set file_blob_ids) (fileblob_table w))"

lemma sorted_file_blobs_eq: "sorted_file_blobs ids w = Inr (loaded_blobs ids w)"
  by (simp add: sorted_file_blobs_def loaded_blobs_def list_all_iff index_of_None)






lemma rollback_tables:
  "fileblob_table (rollback w w') = fileblob_table w"
  "fileblobindex_table (rollback w w') = fileblobindex_table w"
  "fileblobowner_table (rollback w w') = fileblobowner_table w"
  "file_table (rollback w w') = file_table w"
  "store (rollback w w') = store w'" "saves (rollback w w') = saves w'"
  by (simp_all add: rollback_def)

lemma atomic_failure_restores_tables:
  assumes "atomic body w = (Inl e, m, w')"
  shows "fileblob_table w' = fileblob_table w \<and> fileblobindex_table w' = fileblobindex_table w \<and>
         fileblobowner_table w' = fileblobowner_table w \<and> file_table w' = file_table w"
proof -
  obtain r m1 w1 where b: "body w = (r, m1, w1)" by (cases "body w") auto
  then obtain e1 where "r = Inl e1" using assms by (cases r) (auto simp: atomic_def)
  then have "w' = rollback w w1" using assms b by (simp add: atomic_def)
  then show ?thesis by (simp add: rollback_tables)
qed

text \<open>
  Claim C6. Whenever the expected checksum differs from the SHA-1 of the
  assembled bytes (the contents of the loaded blobs, concatenated in the
  caller's order), the call raises and the tables are as before the call: no
  index row remains and the row of the file is untouched. When the loop over
  the blobs runs to its end, the running hash has been fed exactly those bytes
  and the error is \<open>AssembleChecksumMismatch\<close>; when a step of the loop raises
  first (an index row cannot be inserted, a blob's content is missing from
  the storage), that error is the one the caller sees, and the transaction is
  rolled back all the same.
\<close>

theorem assemble_checksum_mismatch_commits_nothing:
  assumes "checksum \<noteq> sha1 (concat (map (blob_bytes (store w)) (loaded_blobs ids w)))"
  shows "\<exists>e self' w'.
           assemble_from_file_blob_ids sha1 self ids checksum commit w = (Inl e, self', w') \<and>
           fileblobindex_table w' = fileblobindex_table w \<and>
           file_table w' = file_table w \<and>
           fileblob_table w' = fileblob_table w \<and>
           fileblobowner_table w' = fileblobowner_table w \<and>
           (\<forall>offset h tf w1.
              assemble_loop (file_id self) (loaded_blobs ids w) 0 [] [] w
                = (Inr (offset, h, tf), w1) \<longrightarrow>
              h = concat (map (blob_bytes (store w)) (loaded_blobs ids w)) \<and>
              e = AssembleChecksumMismatch ''Checksum mismatch'') \<and>
           (\<forall>e' w1.
              assemble_loop (file_id self) (loaded_blobs ids w) 0 [] [] w = (Inl e', w1) \<longrightarrow>
              e = e')"
proof -
  obtain r w1 where lp: "assemble_loop (file_id self) (loaded_blobs ids w) 0 [] [] w = (r, w1)"
    by (cases "assemble_loop (file_id self) (loaded_blobs ids w) 0 [] [] w") auto
  show ?thesis
  proof (cases r)
    case (Inl e')
    have blk: "assemble_block sha1 self ids checksum w = (Inl e', self, w1)"
      using lp Inl by (simp add: assemble_block_def sorted_file_blobs_eq)
    then have at: "atomic (assemble_block sha1 self ids checksum) w
                 = (Inl e', self, rollback w w1)"
      by (simp add: atomic_def)
    then have call: "assemble_from_file_blob_ids sha1 self ids checksum commit w
                 = (Inl e', self, rollback w w1)"
      by (simp add: assemble_from_file_blob_ids_def)
    show ?thesis
      apply (rule exI[of _ e'], rule exI[of _ self], rule exI[of _ "rollback w w1"])
      using lp Inl apply (simp add: call rollback_tables)
      done
  next
    case (Inr t)
    obtain offset h tf where t: "t = (offset, h, tf)" by (cases t) auto
    have lp': "assemble_loop (file_id self) (loaded_blobs ids w) 0 [] [] w
                 = (Inr (offset, h, tf), w1)"
      using lp Inr t by simp
    have h: "h = concat (map (blob_bytes (store w)) (loaded_blobs ids w))"
      using assemble_loop_success[OF lp'] by auto
    then have ne: "checksum \<noteq> sha1 h" using assms by simp
    let ?self = "self\<lparr>file_size := Some offset, file_checksum := Some (sha1 h)\<rparr>"
    have blk: "assemble_block sha1 self ids checksum w
                 = (Inl (AssembleChecksumMismatch ''Checksum mismatch''), ?self, w1)"
      using lp' ne by (simp add: assemble_block_def sorted_file_blobs_eq)
    then have at: "atomic (assemble_block sha1 self ids checksum) w
                 = (Inl (AssembleChecksumMismatch ''Checksum mismatch''), ?self, rollback w w1)"
      by (simp add: atomic_def)
    then have call: "assemble_from_file_blob_ids sha1 self ids checksum commit w
                 = (Inl (AssembleChecksumMismatch ''Checksum mismatch''), ?self, rollback w w1)"
      by (simp add: assemble_from_file_blob_ids_def)
    show ?thesis
      apply (rule exI[of _ "AssembleChecksumMismatch ''Checksum mismatch''"])
      apply (rule exI[of _ ?self], rule exI[of _ "rollback w w1"])
      using lp' h apply (simp add: call rollback_tables)
      done
  qed
qed

text \<open>Example data: a second blob, so that the caller's order can differ from the table's.\<close>

definition ex_bang :: bytes where
  "ex_bang = [33, 33]"

definition ex_bang_blob :: FileBlob where
  "ex_bang_blob =
     \<lparr>blob_id = 2, blob_path = Some ''3/17/uuid1'', blob_size = Some 2,
      blob_checksum = ''11'', blob_timestamp = 259217\<rparr>"

definition ex_world2 :: world where
  "ex_world2 =
     ex_world\<lparr>uuid_count := 2,
              store := [''3/17/uuid0'' \<mapsto> ex_hello, ''3/17/uuid1'' \<mapsto> ex_bang],
              saves := [''3/17/uuid0'', ''3/17/uuid1''],
              fileblob_table := [ex_hello_blob, ex_bang_blob],
              next_blob_id := 3\<rparr>"

definition ex_rows :: "FileBlobIndex list" where
  "ex_rows =
     [\<lparr>idx_id = 1, idx_file = 1, idx_blob = ex_bang_blob, idx_offset = 0\<rparr>,
      \<lparr>idx_id = 2, idx_file = 1, idx_blob = ex_hello_blob, idx_offset = 2\<rparr>]"

lemma ex_from_file_bang:
  "from_file ex_sha1 (ContentFile ex_bang) ex_world1 = (Inr ex_bang_blob, ex_world2)"
proof -
  have "ex_sha1 ex_bang = ''11''" by (simp add: ex_sha1_def ex_bang_def)
  moreover have "''11'' \<notin> set (map blob_checksum (fileblob_table ex_world1))"
    by (simp add: ex_world1_def ex_world_def ex_hello_blob_def)
  moreover have "length ex_bang \<le> MAX_VALUE" by (simp add: ex_bang_def MAX_VALUE_def)
  ultimately have "from_file ex_sha1 (ContentFile ex_bang) ex_world1
      = (Inr (created_blob ex_sha1 ex_bang ex_world1), world_after_create ex_sha1 ex_bang ex_world1)"
    by (intro from_file_miss) simp_all
  moreover have "length ex_bang = 2" by (simp add: ex_bang_def)
  ultimately show ?thesis using \<open>ex_sha1 ex_bang = ''11''\<close>
    by (simp add: world_after_create_def created_blob_def new_blob_def
        generate_unique_path_def ONE_DAY_def text_type.simps ex_world_def ex_world1_def
        ex_world2_def ex_bang_blob_def)
qed

definition ex_ids :: "nat list" where
  "ex_ids = [2, 1]"

lemma ex_loaded: "loaded_blobs ex_ids ex_world2 = [ex_bang_blob, ex_hello_blob]"
  by (simp add: ex_ids_def loaded_blobs_def ex_world2_def ex_world_def ex_hello_blob_def ex_bang_blob_def)

lemma ex_blob_bytes:
  "blob_bytes (store ex_world2) ex_bang_blob = ex_bang"
  "blob_bytes (store ex_world2) ex_hello_blob = ex_hello"
  by (simp_all add: blob_bytes_def getfile_def ex_world2_def ex_world_def ex_hello_blob_def
      ex_bang_blob_def)

lemma ex_assemble_loop:
  "assemble_loop (file_id ex_file) [ex_bang_blob, ex_hello_blob] 0 [] [] ex_world2
     = (Inr (7, ex_bang @ ex_hello, ex_bang @ ex_hello),
        ex_world2\<lparr>fileblobindex_table := ex_rows, next_index_id := 3\<rparr>)"
  by (simp add: create_index_def out_of_range_def MAX_VALUE_def getfile_def
      fold_append_concat concat_read_chunks remaining_def ex_world2_def ex_world_def
      ex_file_def ex_hello_blob_def ex_bang_blob_def ex_rows_def)

theorem assemble_checksum_mismatch_commits_nothing_witness:
  "''abc'' \<noteq> ex_sha1 (concat (map (blob_bytes (store ex_world2)) (loaded_blobs ex_ids ex_world2))) \<and>
   (\<exists>self' w'.
      assemble_from_file_blob_ids ex_sha1 ex_file ex_ids ''abc'' True ex_world2
        = (Inl (AssembleChecksumMismatch ''Checksum mismatch''), self', w') \<and>
      fileblobindex_table w' = [] \<and> file_table w' (file_id ex_file) = None)"
proof -
  have lp: "assemble_loop (file_id ex_file) (loaded_blobs ex_ids ex_world2) 0 [] [] ex_world2
     = (Inr (7, ex_bang @ ex_hello, ex_bang @ ex_hello),
        ex_world2\<lparr>fileblobindex_table := ex_rows, next_index_id := 3\<rparr>)"
    by (simp only: ex_loaded ex_assemble_loop)
  have ne: "''abc'' \<noteq> ex_sha1 (concat (map (blob_bytes (store ex_world2))
      (loaded_blobs ex_ids ex_world2)))"
    by (simp add: ex_loaded ex_blob_bytes ex_sha1_def ex_bang_def ex_hello_def)
  have tabs: "fileblobindex_table ex_world2 = []" "file_table ex_world2 = Map.empty"
    by (simp_all add: ex_world2_def ex_world_def)
  from assemble_checksum_mismatch_commits_nothing[where ?sha1.0 = ex_sha1 and ?commit = True
      and ?self = ex_file, OF ne]
  obtain e self' w' where r:
    "assemble_from_file_blob_ids ex_sha1 ex_file ex_ids ''abc'' True ex_world2 = (Inl e, self', w')"
    "fileblobindex_table w' = fileblobindex_table ex_world2"
    "file_table w' = file_table ex_world2"
    "\<forall>offset h tf w1.
        assemble_loop (file_id ex_file) (loaded_blobs ex_ids ex_world2) 0 [] [] ex_world2
          = (Inr (offset, h, tf), w1) \<longrightarrow>
        h = concat (map (blob_bytes (store ex_world2)) (loaded_blobs ex_ids ex_world2)) \<and>
        e = AssembleChecksumMismatch ''Checksum mismatch''"
    by (elim exE conjE) (rule that; assumption)
  have "e = AssembleChecksumMismatch ''Checksum mismatch''"
    using r(4)[rule_format, OF lp] by (rule conjunct2)
  then have "\<exists>self' w'.
      assemble_from_file_blob_ids ex_sha1 ex_file ex_ids ''abc'' True ex_world2
        = (Inl (AssembleChecksumMismatch ''Checksum mismatch''), self', w') \<and>
      fileblobindex_table w' = [] \<and> file_table w' (file_id ex_file) = None"
    using r(1,2,3) tabs by auto
  then show ?thesis using ne by (simp only: simp_thms)
qed






section \<open>\<open>FileBlob.from_files\<close>\<close>

text \<open>
  An element of \<open>files\<close> is a file object, or a tuple of a file object and a
  reference checksum (which may be \<open>None\<close>).
\<close>

datatype upload = FileObj stream | WithChecksum stream "string option"

definition files_with_checksums :: "upload list \<Rightarrow> (stream \<times> string option) list" where
  "files_with_checksums files =
     map (\<lambda>fileobj. case fileobj of
            WithChecksum f c \<Rightarrow> (f, c)
          | FileObj f \<Rightarrow> (f, None)) files"

text \<open>
  \<open>_ensure_blob_owned\<close>: nothing without an organization; otherwise a row of
  \<open>sentry_fileblobowner\<close> (blob, organization) is created, and the
  \<open>IntegrityError\<close> of the \<open>unique_together\<close> constraint is swallowed. The primary
  key of the owner row is left out of the model.
\<close>

definition ensure_blob_owned :: "nat option \<Rightarrow> FileBlob \<Rightarrow> world \<Rightarrow> world" where
  "ensure_blob_owned organization blob w =
     (case organization of
        None \<Rightarrow> w
      | Some org \<Rightarrow>
          if (blob_id blob, org) \<in> set (fileblobowner_table w) then w
          else w\<lparr>fileblobowner_table := fileblobowner_table w @ [(blob_id blob, org)]\<rparr>)"

text \<open>The nested \<open>_save_blob\<close>: \<open>blob.save()\<close>, then \<open>_ensure_blob_owned(blob)\<close>.\<close>

definition from_files_save_blob ::
  "nat option \<Rightarrow> FileBlob \<Rightarrow> world \<Rightarrow> (error + unit) \<times> world" where
  "from_files_save_blob organization blob w =
     (case save_blob blob w of
        (Inl e, w1) \<Rightarrow> (Inl e, w1)
      | (Inr saved, w1) \<Rightarrow> (Inr (), ensure_blob_owned organization saved w1))"

text \<open>
  \<open>_flush_blobs\<close>: pops the pending blobs from the end of \<open>blobs_to_save\<close> and
  saves each, until the list is empty. The locks and the semaphore are not
  modelled (the calls are sequential). The list that is left is returned with
  the result.
\<close>

fun flush_blobs ::
  "nat option \<Rightarrow> FileBlob list \<Rightarrow> world \<Rightarrow> (error + unit) \<times> FileBlob list \<times> world" where
  "flush_blobs organization blobs_to_save w =
     (if blobs_to_save = [] then (Inr (), [], w)
      else (case from_files_save_blob organization (last blobs_to_save) w of
              (Inl e, w1) \<Rightarrow> (Inl e, butlast blobs_to_save, w1)
            | (Inr u, w1) \<Rightarrow> flush_blobs organization (butlast blobs_to_save) w1))"

declare flush_blobs.simps [simp del]

text \<open>
  \<open>_upload_and_pend_chunk\<close>: the content is written to the storage under a fresh
  path and the blob, not saved yet, is appended to \<open>blobs_to_save\<close>. The call is
  made in the argument of \<open>exe.submit\<close>, so it runs in the calling thread before
  \<open>submit\<close> is entered; what is submitted is its result \<open>None\<close>, whose failure in
  the worker stays inside the future.
\<close>

definition upload_and_pend_chunk ::
  "stream \<Rightarrow> nat \<Rightarrow> string \<Rightarrow> FileBlob list \<Rightarrow> world \<Rightarrow> FileBlob list \<times> world" where
  "upload_and_pend_chunk fileobj sz checksum blobs_to_save w =
     (case generate_unique_path (clock w) w of
        (path, w1) \<Rightarrow>
          (blobs_to_save @ [new_blob sz checksum path (clock w)], storage_save path fileobj w1))"

text \<open>
  The loop over \<open>files_with_checksums\<close>, on the local variables \<open>checksums_seen\<close>,
  \<open>blobs_created\<close> and \<open>blobs_to_save\<close>.
\<close>

fun from_files_loop ::
  "(bytes \<Rightarrow> string) \<Rightarrow> nat option \<Rightarrow> (stream \<times> string option) list \<Rightarrow> string set
     \<Rightarrow> FileBlob list \<Rightarrow> FileBlob list \<Rightarrow> world
     \<Rightarrow> (error + string set \<times> FileBlob list \<times> FileBlob list) \<times> world" where
  "from_files_loop sha1 organization [] checksums_seen blobs_created blobs_to_save w =
     (Inr (checksums_seen, blobs_created, blobs_to_save), w)"
| "from_files_loop sha1 organization ((fileobj, reference_checksum) # rest) checksums_seen
     blobs_created blobs_to_save w =
     (case flush_blobs organization blobs_to_save w of
        (Inl e, queue, w1) \<Rightarrow> (Inl e, w1)
      | (Inr u, queue, w1) \<Rightarrow>
          (case get_size_and_checksum sha1 fileobj of
             (sz, checksum) \<Rightarrow>
               if reference_checksum \<noteq> None \<and> Some checksum \<noteq> reference_checksum
               then (Inl (IOError ''Checksum mismatch''), w1)
               else if checksum \<in> checksums_seen
               then from_files_loop sha1 organization rest checksums_seen blobs_created queue w1
               else (case locked_blob checksum w1 of
                       Inl e \<Rightarrow> (Inl e, w1)
                     | Inr (Some existing) \<Rightarrow>
                         from_files_loop sha1 organization rest (insert checksum checksums_seen)
                           (blobs_created @ [existing]) queue
                           (ensure_blob_owned organization existing w1)
                     | Inr None \<Rightarrow>
                         (case upload_and_pend_chunk fileobj sz checksum queue w1 of
                            (queue', w2) \<Rightarrow>
                              from_files_loop sha1 organization rest
                                (insert checksum checksums_seen) blobs_created queue' w2))))"

text \<open>
  \<open>FileBlob.from_files\<close>. The body ends after the last \<open>_flush_blobs()\<close> and the
  release of the locks, without a \<open>return\<close> statement: a call that does not raise
  evaluates to \<open>None\<close>, and the local list \<open>blobs_created\<close> is dropped. The value
  of a call is a \<open>FileBlob list option\<close>, with HOL's \<open>None\<close> for Python's.
\<close>

definition from_files ::
  "(bytes \<Rightarrow> string) \<Rightarrow> upload list \<Rightarrow> nat option \<Rightarrow> world
     \<Rightarrow> (error + FileBlob list option) \<times> world" where
  "from_files sha1 files organization w =
     (case from_files_loop sha1 organization (files_with_checksums files) {} [] [] w of
        (Inl e, w1) \<Rightarrow> (Inl e, w1)
      | (Inr (checksums_seen, blobs_created, blobs_to_save), w1) \<Rightarrow>
          (case flush_blobs organization blobs_to_save w1 of
             (Inl e, queue, w2) \<Rightarrow> (Inl e, w2)
           | (Inr u, queue, w2) \<Rightarrow> (Inr None, w2)))"

text \<open>
  The file objects of a batch that lead to an upload: those whose digest is
  neither in the set \<open>known\<close> nor the digest of an earlier file of the batch.
\<close>

fun first_uploads :: "(bytes \<Rightarrow> string) \<Rightarrow> string set \<Rightarrow> stream list \<Rightarrow> stream list" where
  "first_uploads sha1 known [] = []"
| "first_uploads sha1 known (f # fs) =
     (if sha1 (remaining f) \<in> known then first_uploads sha1 known fs
      else f # first_uploads sha1 (insert (sha1 (remaining f)) known) fs)"

lemma first_uploads_set:
  "set (map (\<lambda>f. sha1 (remaining f)) (first_uploads sha1 known fs))
     = (\<lambda>f. sha1 (remaining f)) ` set fs - known"
  by (induction fs arbitrary: known) auto

lemma first_uploads_distinct:
  "distinct (map (\<lambda>f. sha1 (remaining f)) (first_uploads sha1 known fs))"
  by (induction fs arbitrary: known) (auto simp: first_uploads_set simp del: set_map)

lemma first_uploads_subset: "set (first_uploads sha1 known fs) \<subseteq> set fs"
  by (induction fs arbitrary: known) auto

lemma ensure_blob_owned_fields [simp]:
  "fileblob_table (ensure_blob_owned org b w) = fileblob_table w"
  "saves (ensure_blob_owned org b w) = saves w"
  "store (ensure_blob_owned org b w) = store w"
  "clock (ensure_blob_owned org b w) = clock w"
  "next_blob_id (ensure_blob_owned org b w) = next_blob_id w"
  by (simp_all add: ensure_blob_owned_def split: option.splits)

lemma flush_blobs_Nil: "flush_blobs org [] w = (Inr (), [], w)"
  by (subst flush_blobs.simps) simp

lemma flush_blobs_single:
  assumes "\<not> out_of_range (blob_size b)"
    and "blob_checksum b \<notin> set (map blob_checksum (fileblob_table w))"
  shows "\<exists>w1 row. flush_blobs org [b] w = (Inr (), [], w1) \<and>
           fileblob_table w1 = fileblob_table w @ [row] \<and>
           blob_checksum row = blob_checksum b \<and> blob_size row = blob_size b \<and>
           blob_path row = blob_path b \<and> saves w1 = saves w"
  using assms
  by (subst flush_blobs.simps)
     (simp add: from_files_save_blob_def save_blob_def flush_blobs_Nil)

definition queue_ok :: "FileBlob list \<Rightarrow> world \<Rightarrow> bool" where
  "queue_ok queue w =
     (length queue \<le> 1 \<and> list_all (\<lambda>b. \<not> out_of_range (blob_size b)) queue \<and>
      distinct (map blob_checksum (fileblob_table w) @ map blob_checksum queue))"

lemma flush_blobs_ok:
  assumes "queue_ok queue w"
  shows "\<exists>w1 rows. flush_blobs org queue w = (Inr (), [], w1) \<and>
           fileblob_table w1 = fileblob_table w @ rows \<and>
           map blob_checksum rows = map blob_checksum queue \<and>
           map blob_size rows = map blob_size queue \<and>
           map blob_path rows = map blob_path queue \<and> saves w1 = saves w"
proof (cases queue)
  case Nil
  then show ?thesis by (simp add: flush_blobs_Nil)
next
  case (Cons b rest)
  then have p: "queue = [b]" using assms by (simp add: queue_ok_def)
  have "\<not> out_of_range (blob_size b)"
    "blob_checksum b \<notin> set (map blob_checksum (fileblob_table w))"
    using assms p by (auto simp: queue_ok_def)
  from flush_blobs_single[OF this, of org]
  obtain w1 row where "flush_blobs org [b] w = (Inr (), [], w1)"
    "fileblob_table w1 = fileblob_table w @ [row]"
    "blob_checksum row = blob_checksum b" "blob_size row = blob_size b"
    "blob_path row = blob_path b" "saves w1 = saves w"
    by (elim exE conjE) (rule that; assumption)
  then show ?thesis using p
    by (intro exI[of _ w1] exI[of _ "[row]"]) simp
qed

lemma queue_ok_Nil:
  "distinct (map blob_checksum (fileblob_table w)) \<Longrightarrow> queue_ok [] w"
  by (simp add: queue_ok_def)

lemma upload_and_pend_chunk_eq:
  "upload_and_pend_chunk f sz c [] w
     = ([new_blob sz c (fst (generate_unique_path (clock w) w)) (clock w)],
        w\<lparr>uuid_count := Suc (uuid_count w),
          store := (store w)(fst (generate_unique_path (clock w) w) \<mapsto> s_data f),
          saves := saves w @ [fst (generate_unique_path (clock w) w)]\<rparr>)"
  by (simp add: upload_and_pend_chunk_def generate_unique_path_def storage_save_def)

lemma from_files_loop_ok:
  assumes "\<forall>(f, r) \<in> set fwc. length (remaining f) \<le> MAX_VALUE \<and>
             (r = None \<or> r = Some (sha1 (remaining f)))"
    and "queue_ok queue w"
    and "seen \<subseteq> set (map blob_checksum (fileblob_table w)) \<union> set (map blob_checksum queue)"
  shows "\<exists>seen' created' queue' w1 w' rows paths.
     from_files_loop sha1 org fwc seen created queue w = (Inr (seen', created', queue'), w1) \<and>
     flush_blobs org queue' w1 = (Inr (), [], w') \<and>
     fileblob_table w' = fileblob_table w @ rows \<and>
     map blob_checksum rows = map blob_checksum queue @
       map (\<lambda>f. sha1 (remaining f))
         (first_uploads sha1
            (set (map blob_checksum (fileblob_table w)) \<union> set (map blob_checksum queue))
            (map fst fwc)) \<and>
     map blob_size rows = map blob_size queue @
       map (\<lambda>f. Some (length (remaining f)))
         (first_uploads sha1
            (set (map blob_checksum (fileblob_table w)) \<union> set (map blob_checksum queue))
            (map fst fwc)) \<and>
     map blob_path rows = map blob_path queue @ map Some paths \<and>
     saves w' = saves w @ paths"
  using assms
proof (induction fwc arbitrary: seen created queue w)
  case Nil
  from flush_blobs_ok[OF Nil.prems(2), of org]
  obtain w1 rows where f: "flush_blobs org queue w = (Inr (), [], w1)"
    "fileblob_table w1 = fileblob_table w @ rows"
    "map blob_checksum rows = map blob_checksum queue"
    "map blob_size rows = map blob_size queue"
    "map blob_path rows = map blob_path queue" "saves w1 = saves w"
    by (elim exE conjE) (rule that; assumption)
  show ?case
    apply (rule exI[of _ seen], rule exI[of _ created], rule exI[of _ queue])
    apply (rule exI[of _ w], rule exI[of _ w1], rule exI[of _ rows], rule exI[of _ "[]"])
    using f apply simp
    done
next
  case (Cons a rest)
  obtain f r where a: "a = (f, r)" by (cases a)
  let ?K = "set (map blob_checksum (fileblob_table w)) \<union> set (map blob_checksum queue)"
  let ?c = "sha1 (remaining f)"
  have fits: "length (remaining f) \<le> MAX_VALUE" and ref: "r = None \<or> r = Some ?c"
    and rest_ok: "\<forall>(f, r) \<in> set rest. length (remaining f) \<le> MAX_VALUE \<and>
             (r = None \<or> r = Some (sha1 (remaining f)))"
    using Cons.prems(1) a by auto
  from flush_blobs_ok[OF Cons.prems(2), of org]
  obtain w1 rows0 where fl: "flush_blobs org queue w = (Inr (), [], w1)"
    and t1: "fileblob_table w1 = fileblob_table w @ rows0"
    and c0: "map blob_checksum rows0 = map blob_checksum queue"
    and s0: "map blob_size rows0 = map blob_size queue"
    and p0: "map blob_path rows0 = map blob_path queue" and sv1: "saves w1 = saves w"
    by (elim exE conjE) (rule that; assumption)
  have d1: "distinct (map blob_checksum (fileblob_table w1))"
    using Cons.prems(2) t1 c0 by (simp add: queue_ok_def)
  have K1: "set (map blob_checksum (fileblob_table w1)) = ?K"
    using t1 c0 by (metis map_append set_append)
  have step: "from_files_loop sha1 org (a # rest) seen created queue w
      = (if ?c \<in> seen then from_files_loop sha1 org rest seen created [] w1
         else (case locked_blob ?c w1 of
                 Inl e \<Rightarrow> (Inl e, w1)
               | Inr (Some existing) \<Rightarrow>
                   from_files_loop sha1 org rest (insert ?c seen) (created @ [existing]) []
                     (ensure_blob_owned org existing w1)
               | Inr None \<Rightarrow>
                   (case upload_and_pend_chunk f (length (remaining f)) ?c [] w1 of
                      (queue', w2) \<Rightarrow>
                        from_files_loop sha1 org rest (insert ?c seen) created queue' w2)))"
    using ref by (auto simp: a fl get_size_and_checksum_eq)
  have known: "\<exists>seen2 created2 wx. 
      from_files_loop sha1 org (a # rest) seen created queue w
        = from_files_loop sha1 org rest seen2 created2 [] wx \<and>
      fileblob_table wx = fileblob_table w1 \<and> saves wx = saves w1 \<and> seen2 \<subseteq> ?K"
    if inK: "?c \<in> ?K"
  proof (cases "?c \<in> seen")
    case True
    then show ?thesis using step Cons.prems(3) by auto
  next
    case False
    have "?c \<in> set (map blob_checksum (fileblob_table w1))" using inK K1 by simp
    then obtain b where b: "b \<in> set (fileblob_table w1)" "blob_checksum b = ?c" by auto
    have "locked_blob ?c w1 = Inr (Some b)"
      using locked_blob_existing[OF d1 b(1)] b(2) by simp
    then have "from_files_loop sha1 org (a # rest) seen created queue w
        = from_files_loop sha1 org rest (insert ?c seen) (created @ [b]) []
            (ensure_blob_owned org b w1)"
      using step False by simp
    moreover have "insert ?c seen \<subseteq> ?K" using inK Cons.prems(3) by simp
    ultimately show ?thesis by (metis ensure_blob_owned_fields(1,2))
  qed
  show ?case
  proof (cases "?c \<in> ?K")
    case True
    from known[OF True] obtain seen2 created2 wx where
      eq: "from_files_loop sha1 org (a # rest) seen created queue w
        = from_files_loop sha1 org rest seen2 created2 [] wx"
      and tx: "fileblob_table wx = fileblob_table w1" and sx: "saves wx = saves w1"
      and s2: "seen2 \<subseteq> ?K"
      by (elim exE conjE) (rule that; assumption)
    have qx: "queue_ok ([]::FileBlob list) wx" using d1 tx by (simp add: queue_ok_def)
    have Kx: "set (map blob_checksum (fileblob_table wx)) \<union> set (map blob_checksum ([]::FileBlob list)) = ?K"
      using K1 tx by simp
    have s2x: "seen2 \<subseteq> set (map blob_checksum (fileblob_table wx)) \<union> set (map blob_checksum ([]::FileBlob list))"
      using s2 Kx by simp
    from Cons.IH[OF rest_ok qx s2x, of created2, unfolded Kx]
    obtain seen' created' queue' w1' w' rows paths where
      r: "from_files_loop sha1 org rest seen2 created2 [] wx = (Inr (seen', created', queue'), w1')"
      "flush_blobs org queue' w1' = (Inr (), [], w')"
      "fileblob_table w' = fileblob_table wx @ rows"
      "map blob_checksum rows = map blob_checksum ([]::FileBlob list) @
         map (\<lambda>f. sha1 (remaining f)) (first_uploads sha1 ?K (map fst rest))"
      "map blob_size rows = map blob_size ([]::FileBlob list) @
         map (\<lambda>f. Some (length (remaining f))) (first_uploads sha1 ?K (map fst rest))"
      "map blob_path rows = map blob_path ([]::FileBlob list) @ map Some paths"
      "saves w' = saves wx @ paths"
      by (elim exE conjE) (rule that; assumption)
    have fu: "first_uploads sha1 ?K (map fst (a # rest)) = first_uploads sha1 ?K (map fst rest)"
      using True by (simp add: a)
    show ?thesis
      apply (rule exI[of _ seen'], rule exI[of _ created'], rule exI[of _ queue'])
      apply (rule exI[of _ w1'], rule exI[of _ w'], rule exI[of _ "rows0 @ rows"])
      apply (rule exI[of _ paths])
      unfolding fu
      using r eq tx sx t1 c0 s0 p0 sv1 apply simp
      done
  next
    case False
    then have ns: "?c \<notin> seen" using Cons.prems(3) by auto
    have "?c \<notin> set (map blob_checksum (fileblob_table w1))" using False K1 by simp
    then have lb: "locked_blob ?c w1 = Inr None" by (rule locked_blob_absent)
    let ?path = "fst (generate_unique_path (clock w1) w1)"
    let ?nb = "new_blob (length (remaining f)) ?c ?path (clock w1)"
    let ?w2 = "w1\<lparr>uuid_count := Suc (uuid_count w1),
          store := (store w1)(?path \<mapsto> s_data f), saves := saves w1 @ [?path]\<rparr>"
    have eq: "from_files_loop sha1 org (a # rest) seen created queue w
        = from_files_loop sha1 org rest (insert ?c seen) created [?nb] ?w2"
      using step ns lb by (simp add: upload_and_pend_chunk_eq)
    have q2: "queue_ok [?nb] ?w2"
      using d1 False K1 fits by (simp add: queue_ok_def new_blob_def out_of_range_def)
    have K2: "set (map blob_checksum (fileblob_table ?w2)) \<union> set (map blob_checksum [?nb])
        = insert ?c ?K"
      using K1 by (simp add: new_blob_def)
    have s2: "insert ?c seen \<subseteq> set (map blob_checksum (fileblob_table ?w2)) \<union>
        set (map blob_checksum [?nb])"
      unfolding K2 using Cons.prems(3) by auto
    from Cons.IH[OF rest_ok q2 s2, of created, unfolded K2]
    obtain seen' created' queue' w1' w' rows paths where
      r: "from_files_loop sha1 org rest (insert ?c seen) created [?nb] ?w2
            = (Inr (seen', created', queue'), w1')"
      "flush_blobs org queue' w1' = (Inr (), [], w')"
      "fileblob_table w' = fileblob_table ?w2 @ rows"
      "map blob_checksum rows = map blob_checksum [?nb] @
         map (\<lambda>f. sha1 (remaining f)) (first_uploads sha1 (insert ?c ?K) (map fst rest))"
      "map blob_size rows = map blob_size [?nb] @
         map (\<lambda>f. Some (length (remaining f))) (first_uploads sha1 (insert ?c ?K) (map fst rest))"
      "map blob_path rows = map blob_path [?nb] @ map Some paths"
      "saves w' = saves ?w2 @ paths"
      by (elim exE conjE) (rule that; assumption)
    have fu: "first_uploads sha1 ?K (map fst (a # rest))
        = f # first_uploads sha1 (insert ?c ?K) (map fst rest)"
      using False by (simp add: a)
    show ?thesis
      apply (rule exI[of _ seen'], rule exI[of _ created'], rule exI[of _ queue'])
      apply (rule exI[of _ w1'], rule exI[of _ w'], rule exI[of _ "rows0 @ rows"])
      apply (rule exI[of _ "?path # paths"])
      unfolding fu
      using r eq t1 c0 s0 p0 sv1 apply (simp add: new_blob_def)
      done
  qed
qed

lemma files_with_checksums_plain:
  "files_with_checksums (map (\<lambda>bs. FileObj (ContentFile bs)) bss)
     = map (\<lambda>bs. (ContentFile bs, None)) bss"
  by (simp add: files_with_checksums_def)

lemma rows_of_uploads:
  assumes "map blob_checksum rows = map (\<lambda>f. sha1 (remaining f)) ffs"
    and "map blob_size rows = map (\<lambda>f. Some (length (remaining f))) ffs"
    and "b \<in> set rows"
  shows "\<exists>f \<in> set ffs. blob_checksum b = sha1 (remaining f) \<and>
           blob_size b = Some (length (remaining f))"
proof -
  obtain i where i: "i < length rows" "rows ! i = b"
    using assms(3) by (auto simp: in_set_conv_nth)
  have len: "length rows = length ffs" using assms(1) by (metis length_map)
  have "blob_checksum (rows ! i) = sha1 (remaining (ffs ! i))"
    using assms(1) i(1) len by (metis nth_map)
  moreover have "blob_size (rows ! i) = Some (length (remaining (ffs ! i)))"
    using assms(2) i(1) len by (metis nth_map)
  moreover have "ffs ! i \<in> set ffs" using i(1) len by simp
  ultimately show ?thesis using i(2) by blast
qed

lemma unique_by_key:
  "distinct (map g xs) \<Longrightarrow> x \<in> set xs \<Longrightarrow> y \<in> set xs \<Longrightarrow> g x = g y \<Longrightarrow> x = y"
  by (meson distinct_map inj_onD)

text \<open>
  Claim C8, as the code has it. For a batch of byte sources that each fit the
  \<open>size\<close> column, over a blob table that satisfies its unique constraint, the
  call does not raise and evaluates to \<open>None\<close>: no list of references is
  returned. Its effect is on the storage and the table: rows are appended, one
  for each distinct digest of the batch that the table did not hold, each with
  the digest and the length of a source of the batch, and each written to the
  storage exactly once, so the number of physical writes is the number of
  those digests; a source whose bytes repeat an earlier source of the batch, or
  whose digest is in the table already, adds no write and no row. After the
  call the table holds exactly one row for the digest of every source, so that
  sources with the same bytes are represented by the same blob.
\<close>

theorem from_files_returns_none_and_writes_each_new_digest_once:
  assumes "distinct (map blob_checksum (fileblob_table w))"
    and "\<forall>bs \<in> set bss. length bs \<le> MAX_VALUE"
  shows "\<exists>w' rows paths.
     from_files sha1 (map (\<lambda>bs. FileObj (ContentFile bs)) bss) organization w = (Inr None, w') \<and>
     fileblob_table w' = fileblob_table w @ rows \<and>
     distinct (map blob_checksum (fileblob_table w')) \<and>
     set (map blob_checksum rows) = sha1 ` set bss - set (map blob_checksum (fileblob_table w)) \<and>
     (\<forall>b \<in> set rows. \<exists>bs \<in> set bss. blob_checksum b = sha1 bs \<and> blob_size b = Some (length bs)) \<and>
     map blob_path rows = map Some paths \<and>
     saves w' = saves w @ paths \<and>
     length paths = card (sha1 ` set bss - set (map blob_checksum (fileblob_table w))) \<and>
     (\<forall>bs \<in> set bss. \<exists>!b. b \<in> set (fileblob_table w') \<and> blob_checksum b = sha1 bs)"
proof -
  let ?fwc = "map (\<lambda>bs. (ContentFile bs, None :: string option)) bss"
  let ?T = "set (map blob_checksum (fileblob_table w))"
  let ?ffs = "first_uploads sha1 ?T (map ContentFile bss)"
  have pre: "\<forall>(f, r) \<in> set ?fwc. length (remaining f) \<le> MAX_VALUE \<and>
             (r = None \<or> r = Some (sha1 (remaining f)))"
    using assms(2) by auto
  have q: "queue_ok ([]::FileBlob list) w" using assms(1) by (rule queue_ok_Nil)
  have s: "{} \<subseteq> set (map blob_checksum (fileblob_table w)) \<union>
      set (map blob_checksum ([]::FileBlob list))" by simp
  have K: "set (map blob_checksum (fileblob_table w)) \<union>
      set (map blob_checksum ([]::FileBlob list)) = ?T" by simp
  have fsts: "map fst ?fwc = map ContentFile bss" by (simp add: comp_def)
  from from_files_loop_ok[where org = organization and created = "[]", OF pre q s,
      unfolded K fsts]
  obtain seen' created' queue' w1 w' rows paths where
    lp: "from_files_loop sha1 organization ?fwc {} [] [] w = (Inr (seen', created', queue'), w1)"
    and fl: "flush_blobs organization queue' w1 = (Inr (), [], w')"
    and tab: "fileblob_table w' = fileblob_table w @ rows"
    and cs: "map blob_checksum rows = map blob_checksum ([]::FileBlob list) @
               map (\<lambda>f. sha1 (remaining f)) ?ffs"
    and sz: "map blob_size rows = map blob_size ([]::FileBlob list) @
               map (\<lambda>f. Some (length (remaining f))) ?ffs"
    and pt: "map blob_path rows = map blob_path ([]::FileBlob list) @ map Some paths"
    and sv: "saves w' = saves w @ paths"
    by (elim exE conjE) (rule that; assumption)
  have cs': "map blob_checksum rows = map (\<lambda>f. sha1 (remaining f)) ?ffs" using cs by simp
  have sz': "map blob_size rows = map (\<lambda>f. Some (length (remaining f))) ?ffs" using sz by simp
  have pt': "map blob_path rows = map Some paths" using pt by simp
  have call: "from_files sha1 (map (\<lambda>bs. FileObj (ContentFile bs)) bss) organization w
      = (Inr None, w')"
    by (simp add: from_files_def files_with_checksums_plain lp fl)
  have img: "(\<lambda>f. sha1 (remaining f)) ` set (map ContentFile bss) = sha1 ` set bss"
    by (auto simp: image_iff)
  have setcs: "set (map blob_checksum rows) = sha1 ` set bss - ?T"
    unfolding cs' first_uploads_set img ..
  have drows: "distinct (map blob_checksum rows)"
    unfolding cs' by (rule first_uploads_distinct)
  have dtab: "distinct (map blob_checksum (fileblob_table w'))"
    using assms(1) drows setcs unfolding tab by (simp del: set_map)
  have per_row: "\<forall>b \<in> set rows. \<exists>bs \<in> set bss.
      blob_checksum b = sha1 bs \<and> blob_size b = Some (length bs)"
  proof
    fix b assume "b \<in> set rows"
    from rows_of_uploads[OF cs' sz' this]
    obtain f where f: "f \<in> set ?ffs" "blob_checksum b = sha1 (remaining f)"
      "blob_size b = Some (length (remaining f))" by blast
    have "f \<in> set (map ContentFile bss)" using f(1) first_uploads_subset by blast
    then obtain bs where "bs \<in> set bss" "f = ContentFile bs" by auto
    then show "\<exists>bs \<in> set bss. blob_checksum b = sha1 bs \<and> blob_size b = Some (length bs)"
      using f(2,3) by auto
  qed
  have "length paths = length (map blob_path rows)" unfolding pt' by simp
  also have "\<dots> = length (map blob_checksum rows)" by simp
  also have "\<dots> = card (set (map blob_checksum rows))"
    using drows by (rule distinct_card[symmetric])
  finally have cnt: "length paths = card (sha1 ` set bss - ?T)" unfolding setcs .
  have each: "\<forall>bs \<in> set bss. \<exists>!b. b \<in> set (fileblob_table w') \<and> blob_checksum b = sha1 bs"
  proof
    fix bs assume bs: "bs \<in> set bss"
    have "sha1 bs \<in> set (map blob_checksum (fileblob_table w'))"
    proof (cases "sha1 bs \<in> ?T")
      case True
      then show ?thesis unfolding tab by auto
    next
      case False
      then have "sha1 bs \<in> set (map blob_checksum rows)" using bs unfolding setcs by blast
      then show ?thesis unfolding tab by auto
    qed
    then obtain b where b: "b \<in> set (fileblob_table w')" "blob_checksum b = sha1 bs" by auto
    show "\<exists>!b. b \<in> set (fileblob_table w') \<and> blob_checksum b = sha1 bs"
    proof (rule ex1I[of _ b])
      show "b \<in> set (fileblob_table w') \<and> blob_checksum b = sha1 bs" using b by simp
    next
      fix y assume "y \<in> set (fileblob_table w') \<and> blob_checksum y = sha1 bs"
      then show "y = b" using unique_by_key[OF dtab _ b(1), of y] b(2) by simp
    qed
  qed
  show ?thesis
    apply (rule exI[of _ w'], rule exI[of _ rows], rule exI[of _ paths])
    apply (intro conjI)
    apply (fact call tab dtab setcs per_row pt' sv cnt each)+
    done
qed

text \<open>
  The claim as stated fails: for a batch of two sources with the same bytes and
  an empty table the call makes one \<open>storage.save\<close>, inserts one row, and
  evaluates to \<open>None\<close>, not to a list of two references.
\<close>

theorem from_files_returns_none_counterexample:
  "from_files ex_sha1 [FileObj (ContentFile ex_hello), FileObj (ContentFile ex_hello)] None
     ex_world = (Inr None, ex_world1) \<and>
   fileblob_table ex_world1 = [ex_hello_blob] \<and> saves ex_world1 = [''3/17/uuid0'']"
proof -
  let ?w0 = "ex_world\<lparr>uuid_count := Suc 0, store := [''3/17/uuid0'' \<mapsto> ex_hello],
                       saves := [''3/17/uuid0'']\<rparr>"
  let ?nb = "new_blob 5 ''85ccf'' ''3/17/uuid0'' 259217"
  have up: "upload_and_pend_chunk (ContentFile ex_hello) 5 ''85ccf'' [] ex_world = ([?nb], ?w0)"
    by (simp add: upload_and_pend_chunk_eq generate_unique_path_def ONE_DAY_def text_type.simps
        ex_world_def)
  have fl: "flush_blobs None [?nb] ?w0 = (Inr (), [], ex_world1)"
    by (subst flush_blobs.simps)
       (simp add: flush_blobs_Nil from_files_save_blob_def save_blob_def out_of_range_def
         MAX_VALUE_def new_blob_def ensure_blob_owned_def ex_world_def ex_world1_def
         ex_hello_blob_def)
  have lb0: "locked_blob ''85ccf'' ex_world = Inr None"
    by (simp add: locked_blob_def ex_world_def)
  have lp: "from_files_loop ex_sha1 None
      [(ContentFile ex_hello, None), (ContentFile ex_hello, None)] {} [] [] ex_world
      = (Inr ({''85ccf''}, [], []), ex_world1)"
    by (simp add: flush_blobs_Nil get_size_and_checksum_eq ex_sha1_hello ex_hello_length lb0 up fl)
  have fwc: "files_with_checksums [FileObj (ContentFile ex_hello), FileObj (ContentFile ex_hello)]
      = [(ContentFile ex_hello, None), (ContentFile ex_hello, None)]"
    by (simp add: files_with_checksums_def)
  have "from_files ex_sha1 [FileObj (ContentFile ex_hello), FileObj (ContentFile ex_hello)] None
     ex_world = (Inr None, ex_world1)"
    unfolding from_files_def fwc lp by (simp add: flush_blobs_Nil)
  moreover have "fileblob_table ex_world1 = [ex_hello_blob]" "saves ex_world1 = [''3/17/uuid0'']"
    by (simp_all add: ex_world1_def ex_world_def)
  ultimately show ?thesis by (simp only: simp_thms)
qed

definition ex_batch :: "bytes list" where
  "ex_batch = [ex_hello, ex_hello, ex_bang, [1], ex_hello, [2]]"

theorem from_files_returns_none_and_writes_each_new_digest_once_witness:
  "distinct (map blob_checksum (fileblob_table ex_world)) \<and>
   list_all (\<lambda>bs. length bs \<le> MAX_VALUE) ex_batch \<and>
   length ex_batch = 6 \<and> ex_batch ! 1 = ex_batch ! 0 \<and> ex_batch ! 4 = ex_batch ! 0 \<and>
   (\<exists>w' paths.
      from_files ex_sha1 (map (\<lambda>bs. FileObj (ContentFile bs)) ex_batch) None ex_world
        = (Inr None, w') \<and>
      saves w' = paths \<and> length paths = 4 \<and> length (fileblob_table w') = 4 \<and>
      (\<exists>!b. b \<in> set (fileblob_table w') \<and> blob_checksum b = ex_sha1 (ex_batch ! 0)))"
proof -
  have d: "distinct (map blob_checksum (fileblob_table ex_world))"
    and t0: "fileblob_table ex_world = []" and s0: "saves ex_world = []"
    by (simp_all add: ex_world_def)
  have fits: "\<forall>bs \<in> set ex_batch. length bs \<le> MAX_VALUE"
    by (simp add: ex_batch_def ex_hello_def ex_bang_def MAX_VALUE_def)
  have digests: "ex_sha1 ` set ex_batch - set (map blob_checksum (fileblob_table ex_world))
      = {''85ccf'', ''11'', ''1'', ''2''}"
    by (auto simp: ex_batch_def ex_sha1_def ex_hello_def ex_bang_def t0)
  have card4: "card {''85ccf'', ''11'', ''1'', ''2''} = (4::nat)" by simp
  have first: "ex_batch ! 0 \<in> set ex_batch" by (simp add: ex_batch_def)
  from from_files_returns_none_and_writes_each_new_digest_once[OF d fits, of ex_sha1 None]
  obtain w' rows paths where r:
    "from_files ex_sha1 (map (\<lambda>bs. FileObj (ContentFile bs)) ex_batch) None ex_world
       = (Inr None, w')"
    "fileblob_table w' = fileblob_table ex_world @ rows"
    "map blob_path rows = map Some paths"
    "saves w' = saves ex_world @ paths"
    "length paths = card (ex_sha1 ` set ex_batch - set (map blob_checksum (fileblob_table ex_world)))"
    "\<forall>bs \<in> set ex_batch. \<exists>!b. b \<in> set (fileblob_table w') \<and> blob_checksum b = ex_sha1 bs"
    by (elim exE conjE) (rule that; assumption)
  have len: "length paths = 4" using r(5) unfolding digests card4 .
  have "length rows = length paths" using r(3) by (metis length_map)
  then have lrows: "length (fileblob_table w') = 4" using r(2) t0 len by simp
  have sv: "saves w' = paths" using r(4) s0 by simp
  have one: "\<exists>!b. b \<in> set (fileblob_table w') \<and> blob_checksum b = ex_sha1 (ex_batch ! 0)"
    using r(6) first by (rule bspec)
  have ex: "\<exists>w' paths.
      from_files ex_sha1 (map (\<lambda>bs. FileObj (ContentFile bs)) ex_batch) None ex_world
        = (Inr None, w') \<and>
      saves w' = paths \<and> length paths = 4 \<and> length (fileblob_table w') = 4 \<and>
      (\<exists>!b. b \<in> set (fileblob_table w') \<and> blob_checksum b = ex_sha1 (ex_batch ! 0))"
    apply (rule exI[of _ w'], rule exI[of _ paths])
    apply (intro conjI)
    apply (fact r(1) sv len lrows one)+
    done
  have shape: "length ex_batch = 6" "ex_batch ! 1 = ex_batch ! 0" "ex_batch ! 4 = ex_batch ! 0"
    by (simp_all add: ex_batch_def)
  have fits': "list_all (\<lambda>bs. length bs \<le> MAX_VALUE) ex_batch"
    using fits by (simp add: list_all_iff)
  show ?thesis
    apply (intro conjI)
    apply (fact d fits' shape ex)+
    done
qed

end
